theory Spec2Isabelle
  imports Main "HOL-Library.Word" "HOL-Library.Sublist" "HOL-Library.AList"
begin

section \<open>JavaScript values\<close>

text \<open>
  A file's content and a Node \<open>Buffer\<close> are lists of bytes. A JavaScript string is a list
  of UTF-16 code units, so that the Cyrillic names the patcher uses are ordinary values.
  \<open>lit\<close> embeds an ASCII literal; \<open>Buffer.from(s, "ascii")\<close> keeps the low byte of every
  code unit.
\<close>

type_synonym byte = "8 word"
type_synonym buffer = "byte list"
type_synonym jschar = "16 word"
type_synonym jsstring = "jschar list"

definition lit :: "string \<Rightarrow> jsstring" where
  "lit s = map of_char s"

definition endsWith :: "jsstring \<Rightarrow> jsstring \<Rightarrow> bool" where
  "endsWith s t = suffix t s"

definition Buffer_from_ascii :: "jsstring \<Rightarrow> buffer" where
  "Buffer_from_ascii s = map ucast s"

text \<open>
  The numbers \<open>parseInt\<close> can return: \<open>NaN\<close>, a double whose value is an integer, or
  an infinity. The sign of zero is not kept.
\<close>

datatype jsnumber = NaN | Num int | PosInfinity | NegInfinity

text \<open>
  \<open>buf.indexOf(value, byteOffset)\<close>: the first index at or after \<open>byteOffset\<close> where
  \<open>value\<close> starts, \<open>None\<close> for the result \<open>-1\<close>. For an empty \<open>value\<close> Node returns
  \<open>byteOffset\<close>, capped at the length of the buffer.
\<close>

fun index_from :: "buffer \<Rightarrow> buffer \<Rightarrow> nat \<Rightarrow> nat option" where
  "index_from [] v i = None"
| "index_from (x # xs) v i =
     (if prefix v (x # xs) then Some i else index_from xs v (Suc i))"

definition Buffer_indexOf :: "buffer \<Rightarrow> buffer \<Rightarrow> nat \<Rightarrow> nat option" where
  "Buffer_indexOf buf v byteOffset =
     (if v = [] then Some (min byteOffset (length buf))
      else index_from (drop byteOffset buf) v byteOffset)"

text \<open>
  \<open>src.copy(target, targetStart)\<close>: writes \<open>src\<close> into \<open>target\<close> from \<open>targetStart\<close> on,
  cut off at the end of \<open>target\<close>; a buffer never changes its length.
\<close>

definition Buffer_copy :: "buffer \<Rightarrow> buffer \<Rightarrow> nat \<Rightarrow> buffer" where
  "Buffer_copy src target targetStart =
     take targetStart target @ take (length target - targetStart) src
       @ drop (targetStart + length src) target"

text \<open>
  The scan loop of \<open>bypassIntegrityWin\<close> (\<open>while (true) { idx = indexOf(oldBuf, offset);
  if (idx === -1) break; newBuf.copy(fileBuffer, idx); offset = idx + oldBuf.length }\<close>),
  on the buffer it mutates. The loop has no bound of its own: \<open>None\<close> is a run that never
  leaves it.
\<close>

partial_function (option) scan_loop :: "buffer \<Rightarrow> buffer \<Rightarrow> buffer \<Rightarrow> nat \<Rightarrow> buffer option" where
  "scan_loop fileBuffer oldBuf newBuf offset =
     (case Buffer_indexOf fileBuffer oldBuf offset of
        None \<Rightarrow> Some fileBuffer
      | Some idx \<Rightarrow>
          scan_loop (Buffer_copy newBuf fileBuffer idx) oldBuf newBuf (idx + length oldBuf))"

declare scan_loop.simps [code]

text \<open>An occurrence of \<open>v\<close> in \<open>f\<close> at index \<open>i\<close>; used to state what the scan does.\<close>

definition occurs_at :: "buffer \<Rightarrow> buffer \<Rightarrow> nat \<Rightarrow> bool" where
  "occurs_at f v i \<longleftrightarrow> i + length v \<le> length f \<and> take (length v) (drop i f) = v"

section \<open>The world: files and observable effects\<close>

text \<open>
  Errors are values. \<open>Error\<close> is a \<open>new Error(message)\<close> thrown by the patcher itself;
  \<open>FsError\<close> is a rejection of a file-system call, with the path; \<open>LibraryError\<close> is a
  rejection that comes out of a library or a collaborator (asar, zlib, child_process, the
  release service).
\<close>

datatype error = Error jsstring | FsError jsstring | LibraryError jsstring

text \<open>
  Every effect a run performs is appended to a journal. \<open>Status\<close> is a call of
  \<open>updateStatus\<close> (spinner text or \<open>logger.info\<close>), \<open>Warn\<close> a \<open>logger.warn\<close>, \<open>HttpGet\<close>
  a request through the release service, \<open>Exec\<close> a finished child process; the
  file-system events record the calls that succeeded.
\<close>

datatype event =
    Status jsstring
  | Warn jsstring
  | HttpGet jsstring
  | Exec jsstring
  | Kill jsnumber
  | Spawn jsstring
  | CopyFile jsstring jsstring
  | WriteFile jsstring
  | Unlink jsstring

text \<open>
  The file system is a flat association from paths to contents; a directory exists as the
  paths below it. File-system calls fail only for the reason the model gives (a missing
  file); permissions, locks and full disks are outside it.
\<close>

record world =
  files :: "(jsstring \<times> buffer) list"
  events :: "event list"

type_synonym 'a io = "world \<Rightarrow> ((error + 'a) \<times> world) option"

definition io_return :: "'a \<Rightarrow> 'a io" where
  "io_return x w = Some (Inr x, w)"

definition io_throw :: "error \<Rightarrow> 'a io" where
  "io_throw e w = Some (Inl e, w)"

definition io_bind :: "'a io \<Rightarrow> ('a \<Rightarrow> 'b io) \<Rightarrow> 'b io" where
  "io_bind m f w =
     (case m w of
        None \<Rightarrow> None
      | Some (Inl e, w') \<Rightarrow> Some (Inl e, w')
      | Some (Inr x, w') \<Rightarrow> f x w')"

definition io_seq :: "'a io \<Rightarrow> 'b io \<Rightarrow> 'b io" where
  "io_seq m n = io_bind m (\<lambda>_. n)"

definition emit :: "event \<Rightarrow> unit io" where
  "emit e w = Some (Inr (), w\<lparr>events := events w @ [e]\<rparr>)"

definition existsSync :: "jsstring \<Rightarrow> bool io" where
  "existsSync path w = Some (Inr (map_of (files w) path \<noteq> None), w)"

definition readFile :: "jsstring \<Rightarrow> buffer io" where
  "readFile path w =
     (case map_of (files w) path of
        None \<Rightarrow> Some (Inl (FsError path), w)
      | Some content \<Rightarrow> Some (Inr content, w))"

definition stat_size :: "jsstring \<Rightarrow> int io" where
  "stat_size path = io_bind (readFile path) (\<lambda>content. io_return (int (length content)))"

definition writeFile :: "jsstring \<Rightarrow> buffer \<Rightarrow> unit io" where
  "writeFile path content w =
     Some (Inr (), w\<lparr>files := AList.update path content (files w),
                     events := events w @ [WriteFile path]\<rparr>)"

definition copyFile :: "jsstring \<Rightarrow> jsstring \<Rightarrow> unit io" where
  "copyFile src dest w =
     (case map_of (files w) src of
        None \<Rightarrow> Some (Inl (FsError src), w)
      | Some content \<Rightarrow>
          Some (Inr (), w\<lparr>files := AList.update dest content (files w),
                          events := events w @ [CopyFile src dest]\<rparr>))"

definition unlink :: "jsstring \<Rightarrow> unit io" where
  "unlink path w =
     (case map_of (files w) path of
        None \<Rightarrow> Some (Inl (FsError path), w)
      | Some _ \<Rightarrow>
          Some (Inr (), w\<lparr>files := AList.delete path (files w),
                          events := events w @ [Unlink path]\<rparr>))"

text \<open>
  \<open>path.join\<close>: the non-empty segments with a separator between them, \<open>"."\<close> when there
  is none. The normalisation of \<open>..\<close> and of doubled separators is not modelled, and the
  separator is \<open>/\<close> on every platform.
\<close>

definition slash :: jschar where
  "slash = 0x2F"

fun join_segments :: "jsstring list \<Rightarrow> jsstring" where
  "join_segments [] = []"
| "join_segments [s] = s"
| "join_segments (s # t # ss) = s @ [slash] @ join_segments (t # ss)"

definition path_join :: "jsstring list \<Rightarrow> jsstring" where
  "path_join segs =
     (let joined = join_segments (filter (\<lambda>s. s \<noteq> []) segs)
      in if joined = [] then lit ''.'' else joined)"

text \<open>
  \<open>readdir(dir)\<close>: the names directly below \<open>dir\<close>, the first segment of every path
  under it; a name that is not itself a file is a sub-directory.
\<close>

definition strip_prefix :: "jsstring \<Rightarrow> jsstring \<Rightarrow> jsstring option" where
  "strip_prefix pre s = (if prefix pre s then Some (drop (length pre) s) else None)"

definition readdir :: "jsstring \<Rightarrow> jsstring list io" where
  "readdir dir w =
     Some (Inr (remdups (map (takeWhile (\<lambda>c. c \<noteq> slash))
                  (List.map_filter (strip_prefix (dir @ [slash])) (map fst (files w))))), w)"

section \<open>The patcher\<close>

datatype platform = Darwin | Linux | Win32 | OtherPlatform jsstring

datatype patch_type = Default | DevtoolsOnly

text \<open>\<open>PatcherOptions\<close> as the caller passes them (every field optional) and as stored.\<close>

record raw_options =
  raw_patchType :: "patch_type option"
  raw_customPath :: "jsstring option"
  raw_useCache :: "bool option"
  raw_keepCache :: "bool option"
  raw_githubToken :: "jsstring option"
  raw_force :: "bool option"

record options =
  patchType :: patch_type
  customPath :: jsstring
  useCache :: bool
  keepCache :: bool
  githubToken :: jsstring
  force :: bool

record patcher =
  platform :: platform
  opts :: options
  cacheDir :: jsstring
  tmpDir :: jsstring
  ymPath :: jsstring
  ymAsarPath :: jsstring
  ymExePath :: "jsstring option"

text \<open>The application's name, \<open>U+042F U+043D U+0434 U+0435 U+043A U+0441\<close>, a space,
  \<open>U+041C U+0443 U+0437 U+044B U+043A U+0430\<close>.\<close>

definition ym_name :: jsstring where
  "ym_name = [0x42F, 0x43D, 0x434, 0x435, 0x43A, 0x441, 0x20,
              0x41C, 0x443, 0x437, 0x44B, 0x43A, 0x430]"

definition dquote :: jschar where
  "dquote = 0x22"

text \<open>\<open>a || b\<close> on strings: the empty string and \<open>undefined\<close> are falsy.\<close>

definition or_string :: "jsstring option \<Rightarrow> jsstring \<Rightarrow> jsstring" where
  "or_string a b = (case a of None \<Rightarrow> b | Some s \<Rightarrow> if s = [] then b else s)"

definition getDefaultYMPath :: "platform \<Rightarrow> jsstring option \<Rightarrow> error + jsstring" where
  "getDefaultYMPath plat localAppData =
     (case plat of
        Darwin \<Rightarrow> Inr (path_join [lit ''/Applications'', ym_name @ lit ''.app''])
      | Linux \<Rightarrow> Inr (path_join [lit ''/opt'', ym_name])
      | Win32 \<Rightarrow> Inr (path_join [or_string localAppData [], lit ''Programs'', lit ''YandexMusic''])
      | OtherPlatform name \<Rightarrow> Inl (Error (lit ''Unsupported platform: '' @ name)))"

definition resolveAsarPath :: "platform \<Rightarrow> jsstring \<Rightarrow> error + jsstring" where
  "resolveAsarPath plat appPath =
     (case plat of
        Darwin \<Rightarrow> Inr (path_join [appPath, lit ''Contents'', lit ''Resources'', lit ''app.asar''])
      | Win32 \<Rightarrow> Inr (path_join [appPath, lit ''resources'', lit ''app.asar''])
      | Linux \<Rightarrow> Inr (path_join [appPath, lit ''resources'', lit ''app.asar''])
      | OtherPlatform name \<Rightarrow> Inl (Error (lit ''Unsupported platform: '' @ name)))"

definition resolveExePath :: "platform \<Rightarrow> jsstring \<Rightarrow> jsstring option" where
  "resolveExePath plat appPath =
     (if plat = Win32 then Some (path_join [appPath, ym_name @ lit ''.exe'']) else None)"

text \<open>
  The constructor, given what it reads from its surroundings: \<open>os.platform()\<close>,
  \<open>os.homedir()\<close>, \<open>process.env.LOCALAPPDATA\<close> and the configuration's \<open>customPath\<close>.
  \<open>ensureDirs\<close> creates the cache and temp directories, which changes nothing in a flat
  file system.
\<close>

definition Patcher_new ::
  "platform \<Rightarrow> jsstring \<Rightarrow> jsstring option \<Rightarrow> jsstring option \<Rightarrow> raw_options \<Rightarrow> error + patcher" where
  "Patcher_new plat homeDir localAppData configCustomPath raw =
     (let resolvedPath = or_string (raw_customPath raw) (or_string configCustomPath []);
          os = \<lparr> patchType = (case raw_patchType raw of None \<Rightarrow> Default | Some t \<Rightarrow> t),
                 customPath = resolvedPath,
                 useCache = (raw_useCache raw \<noteq> Some False),
                 keepCache = (raw_keepCache raw \<noteq> Some False),
                 githubToken = or_string (raw_githubToken raw) [],
                 force = (raw_force raw = Some True) \<rparr>;
          cache = path_join [homeDir, lit ''.ymmp-cache''];
          tmp = path_join [cache, lit ''temp'']
      in case (if customPath os \<noteq> [] then Inr (customPath os)
               else getDefaultYMPath plat localAppData) of
           Inl e \<Rightarrow> Inl e
         | Inr ym \<Rightarrow>
             (case resolveAsarPath plat ym of
                Inl e \<Rightarrow> Inl e
              | Inr asar \<Rightarrow>
                  Inr \<lparr> platform = plat, opts = os, cacheDir = cache, tmpDir = tmp,
                        ymPath = ym, ymAsarPath = asar, ymExePath = resolveExePath plat ym \<rparr>))"

text \<open>
  What a run consults outside the file system: the access check on a path, the outcome
  of a shell command (\<open>None\<close> when \<open>execAsync\<close> rejects: the tool is absent or exits
  non-zero), the asar header reader and the SHA-256 hex digest, the release service and
  zlib.
\<close>

record asset =
  asset_name :: jsstring
  browser_download_url :: jsstring
  asset_size :: int

record release_metadata =
  release_name :: jsstring
  published_at :: jsstring
  assets :: "asset list"

record env =
  access_rw :: "jsstring \<Rightarrow> bool"
  exec :: "jsstring \<Rightarrow> jsstring option"
  getRawHeader :: "buffer \<Rightarrow> jsstring option"
  sha256_hex :: "jsstring \<Rightarrow> jsstring"
  getLatestRelease :: "error + release_metadata"
  downloadStream :: "jsstring \<Rightarrow> error + buffer"
  unzip :: "buffer \<Rightarrow> buffer option"

definition updateStatus :: "jsstring \<Rightarrow> unit io" where
  "updateStatus text = emit (Status text)"

record check_result =
  status :: bool
  message :: "jsstring option"
  request :: "jsstring option"

definition checkInstallPossible :: "patcher \<Rightarrow> env \<Rightarrow> check_result io" where
  "checkInstallPossible p en =
     io_bind (existsSync (ymAsarPath p)) (\<lambda>found.
       if \<not> found then
         io_return \<lparr> status = False,
                     message = Some (lit ''Yandex Music not found at: '' @ ymAsarPath p),
                     request = Some (lit ''REQUEST_YM_PATH'') \<rparr>
       else if access_rw en (ymAsarPath p) then
         io_return \<lparr> status = True, message = None, request = None \<rparr>
       else
         io_return \<lparr> status = False,
                     message = Some (lit ''No write permissions''),
                     request = Some (lit ''REQUEST_PERMISSIONS'') \<rparr>)"

section \<open>Listing the running instances\<close>

text \<open>
  The string functions \<open>getYandexMusicProcesses\<close> uses. \<open>trim\<close> removes white space and
  line terminators at both ends; \<open>split\<close> cuts at every occurrence of a separator;
  \<open>parseInt\<close> skips leading white space, reads a sign, switches to radix 16 after
  \<open>0x\<close>, and reads digits as far as they go. The integer read is then turned into
  a double by \<open>to_double\<close>: kept as it is up to 53 bits, rounded to 53 significant bits
  beyond (to nearest, ties to even, as V8 does; ECMAScript lets an implementation
  approximate after the 20th digit), and \<open>None\<close>, an infinity, when the rounded value
  needs more than 1024 bits, which is the case from \<open>2^1024 - 2^970\<close> on.
\<close>

definition is_space :: "jschar \<Rightarrow> bool" where
  "is_space c \<longleftrightarrow>
     c \<in> set [0x09, 0x0A, 0x0B, 0x0C, 0x0D, 0x20, 0xA0, 0x1680, 0x2028, 0x2029,
              0x202F, 0x205F, 0x3000, 0xFEFF]
     \<or> (0x2000 \<le> c \<and> c \<le> 0x200A)"

definition trimStart :: "jsstring \<Rightarrow> jsstring" where
  "trimStart s = dropWhile is_space s"

definition trim :: "jsstring \<Rightarrow> jsstring" where
  "trim s = rev (dropWhile is_space (rev (dropWhile is_space s)))"

fun split_go :: "jsstring \<Rightarrow> jsstring \<Rightarrow> nat \<Rightarrow> jsstring \<Rightarrow> jsstring list" where
  "split_go sep [] skip cur = [cur]"
| "split_go sep (c # cs) (Suc skip) cur = split_go sep cs skip cur"
| "split_go sep (c # cs) 0 cur =
     (if prefix sep (c # cs) then cur # split_go sep cs (length sep - 1) []
      else split_go sep cs 0 (cur @ [c]))"

definition split :: "jsstring \<Rightarrow> jsstring \<Rightarrow> jsstring list" where
  "split s sep = (if sep = [] then map (\<lambda>c. [c]) s else split_go sep s 0 [])"

definition digit_value :: "jschar \<Rightarrow> nat option" where
  "digit_value c =
     (if 0x30 \<le> c \<and> c \<le> 0x39 then Some (unat c - 0x30)
      else if 0x61 \<le> c \<and> c \<le> 0x7A then Some (unat c - 0x61 + 10)
      else if 0x41 \<le> c \<and> c \<le> 0x5A then Some (unat c - 0x41 + 10)
      else None)"

definition is_digit :: "nat \<Rightarrow> jschar \<Rightarrow> bool" where
  "is_digit radix c = (case digit_value c of None \<Rightarrow> False | Some d \<Rightarrow> d < radix)"

function bit_width :: "int \<Rightarrow> nat" where
  "bit_width n = (if n \<le> 0 then 0 else Suc (bit_width (n div 2)))"
  by pat_completeness auto
termination
  by (relation "measure nat") auto

declare bit_width.simps [simp del]

definition to_double :: "int \<Rightarrow> int option" where
  "to_double n =
     (let e = bit_width n - 53;
          q = n div 2 ^ e;
          r = n mod 2 ^ e;
          up = (0 < e \<and> (2 ^ e < 2 * r \<or> (2 * r = 2 ^ e \<and> odd q)));
          m = (if up then q + 1 else q)
      in if bit_width m + e \<le> 1024 then Some (m * 2 ^ e) else None)"

definition unsigned :: "jsstring \<Rightarrow> jsstring" where
  "unsigned s = (if s \<noteq> [] \<and> (hd s = 0x2B \<or> hd s = 0x2D) then tl s else s)"

definition parseInt :: "jsstring \<Rightarrow> jsnumber" where
  "parseInt string =
     (let s0 = trimStart string;
          negative = (s0 \<noteq> [] \<and> hd s0 = 0x2D);
          s1 = unsigned s0;
          hex = (prefix (lit ''0x'') s1 \<or> prefix (lit ''0X'') s1);
          radix = (if hex then 16 else 10);
          s2 = (if hex then drop 2 s1 else s1);
          z = takeWhile (is_digit radix) s2;
          n = foldl (\<lambda>acc c. acc * int radix + int (the (digit_value c))) 0 z
      in if z = [] then NaN
         else (case to_double n of
                 None \<Rightarrow> if negative then NegInfinity else PosInfinity
               | Some v \<Rightarrow> Num (if negative then - v else v)))"

definition ps_command :: "platform \<Rightarrow> jsstring" where
  "ps_command plat =
     (if plat = Win32 then
        lit ''tasklist /FI '' @ [dquote] @ lit ''IMAGENAME eq '' @ ym_name @ lit ''.exe''
          @ [dquote] @ lit '' /FO CSV /NH''
      else if plat = Darwin then lit ''pgrep -f '' @ [dquote] @ ym_name @ [dquote]
      else lit ''pgrep -f yandexmusic'')"

text \<open>
  One row of the listing and the number it yields, and the filter
  \<open>n > 0 && !isNaN(n)\<close> on that number.
\<close>

definition parse_row :: "platform \<Rightarrow> jsstring \<Rightarrow> jsnumber" where
  "parse_row plat l =
     (if plat = Win32 then
        (let parts = split l ([dquote] @ lit '','' @ [dquote])
         in if length parts \<ge> 2 \<and> parts ! 1 \<noteq> []
            then parseInt (filter (\<lambda>c. c \<noteq> dquote) (parts ! 1))
            else Num 0)
      else parseInt l)"

definition greater_zero :: "jsnumber \<Rightarrow> bool" where
  "greater_zero n = (case n of NaN \<Rightarrow> False | Num v \<Rightarrow> 0 < v
                     | PosInfinity \<Rightarrow> True | NegInfinity \<Rightarrow> False)"

definition isNaN :: "jsnumber \<Rightarrow> bool" where
  "isNaN n = (n = NaN)"

definition is_pid :: "jsnumber \<Rightarrow> bool" where
  "is_pid n = (greater_zero n \<and> \<not> isNaN n)"

text \<open>The body of the \<open>try\<close>: it throws when \<open>execAsync\<close> rejects.\<close>

definition getYandexMusicProcesses_try :: "patcher \<Rightarrow> env \<Rightarrow> error + jsnumber list" where
  "getYandexMusicProcesses_try p en =
     (case exec en (ps_command (platform p)) of
        None \<Rightarrow> Inl (LibraryError (lit ''child_process''))
      | Some stdout \<Rightarrow>
          if trim stdout = [] then Inr []
          else Inr (filter is_pid
                 (map (parse_row (platform p))
                   (filter (\<lambda>l. trim l \<noteq> []) (split stdout [0x0A])))))"

text \<open>The \<open>catch\<close> turns every failure into the empty list.\<close>

definition getYandexMusicProcesses :: "patcher \<Rightarrow> env \<Rightarrow> jsnumber list" where
  "getYandexMusicProcesses p en =
     (case getYandexMusicProcesses_try p en of Inl _ \<Rightarrow> [] | Inr pids \<Rightarrow> pids)"

fun killProcesses :: "jsnumber list \<Rightarrow> unit io" where
  "killProcesses [] = io_return ()"
| "killProcesses (pid # pids) = io_seq (emit (Kill pid)) (killProcesses pids)"

definition launchYandexMusic :: "patcher \<Rightarrow> env \<Rightarrow> unit io" where
  "launchYandexMusic p en =
     (if platform p = Darwin then
        (let command = lit ''open '' @ [dquote] @ ymPath p @ [dquote]
         in case exec en command of
              None \<Rightarrow> io_throw (LibraryError (lit ''child_process''))
            | Some _ \<Rightarrow> emit (Exec command))
      else if platform p = Win32 then
        (let exe = path_join [ymPath p, ym_name @ lit ''.exe'']
         in io_bind (existsSync exe) (\<lambda>found. if found then emit (Spawn exe) else io_return ()))
      else io_return ())"

section \<open>Fetching the archive\<close>

definition calculateAsarHeaderHash :: "env \<Rightarrow> jsstring \<Rightarrow> jsstring io" where
  "calculateAsarHeaderHash en asarPath =
     io_bind (readFile asarPath) (\<lambda>content.
       case getRawHeader en content of
         None \<Rightarrow> io_throw (LibraryError (lit ''asar''))
       | Some headerString \<Rightarrow> io_return (sha256_hex en headerString))"

definition fetchRelease :: "env \<Rightarrow> release_metadata io" where
  "fetchRelease en =
     io_seq (emit (HttpGet (lit ''https://api.github.com/repos/TheKing-OfTime/YandexMusicModClient/releases/latest'')))
       (case getLatestRelease en of Inl e \<Rightarrow> io_throw e | Inr metadata \<Rightarrow> io_return metadata)"

definition decompressFile :: "env \<Rightarrow> jsstring \<Rightarrow> jsstring \<Rightarrow> unit io" where
  "decompressFile en source dest =
     io_bind (readFile source) (\<lambda>compressed.
       case unzip en compressed of
         None \<Rightarrow> io_throw (LibraryError (lit ''zlib''))
       | Some decompressed \<Rightarrow> writeFile dest decompressed)"

definition assetPrefix :: "patcher \<Rightarrow> jsstring" where
  "assetPrefix p =
     (if patchType (opts p) = Default then lit ''app.asar'' else lit ''appDevTools.asar'')"

text \<open>\<open>assets.find(name = prefix + ".gz") || assets.find(name = prefix)\<close>.\<close>

definition resolveAsset :: "patcher \<Rightarrow> release_metadata \<Rightarrow> asset option" where
  "resolveAsset p metadata =
     (case find (\<lambda>a. asset_name a = assetPrefix p @ lit ''.gz'') (assets metadata) of
        Some a \<Rightarrow> Some a
      | None \<Rightarrow> find (\<lambda>a. asset_name a = assetPrefix p) (assets metadata))"

text \<open>
  The part of \<open>downloadModFiles\<close> after the cache check: the request, the stream written
  to \<open>destPath\<close>, the decompression. The progress text of the spinner is not modelled.
\<close>

definition download_asset :: "patcher \<Rightarrow> env \<Rightarrow> bool \<Rightarrow> asset \<Rightarrow> unit io" where
  "download_asset p en spinner a =
     (let destPath = path_join [tmpDir p, asset_name a];
          isGz = endsWith (asset_name a) (lit ''.gz'')
      in io_seq (emit (HttpGet (browser_download_url a)))
           (case downloadStream en (browser_download_url a) of
              Inl e \<Rightarrow> io_throw e
            | Inr data \<Rightarrow>
                io_seq (writeFile destPath data)
                  (if isGz then
                     io_seq (if spinner then updateStatus (lit ''Decompressing...'') else io_return ())
                       (decompressFile en destPath (path_join [tmpDir p, lit ''app.asar'']))
                   else io_return ())))"

definition downloadModFiles :: "patcher \<Rightarrow> env \<Rightarrow> bool \<Rightarrow> release_metadata \<Rightarrow> unit io" where
  "downloadModFiles p en spinner metadata =
     (case resolveAsset p metadata of
        None \<Rightarrow> io_throw (Error (lit ''No suitable asset found in release''))
      | Some a \<Rightarrow>
          (let destPath = path_join [tmpDir p, asset_name a];
               isGz = endsWith (asset_name a) (lit ''.gz'')
           in io_bind (existsSync destPath) (\<lambda>cached.
                if useCache (opts p) \<and> cached then
                  io_bind (stat_size destPath) (\<lambda>size.
                    if size = asset_size a then
                      (if isGz then decompressFile en destPath (path_join [tmpDir p, lit ''app.asar''])
                       else io_return ())
                    else download_asset p en spinner a)
                else download_asset p en spinner a)))"

section \<open>Backup, replacement and the integrity bypass\<close>

definition createBackup :: "patcher \<Rightarrow> unit io" where
  "createBackup p = copyFile (ymAsarPath p) (path_join [tmpDir p, lit ''app.asar.backup''])"

definition replaceAsar :: "patcher \<Rightarrow> unit io" where
  "replaceAsar p = copyFile (path_join [tmpDir p, lit ''app.asar'']) (ymAsarPath p)"

definition bypassIntegrityMac :: "patcher \<Rightarrow> env \<Rightarrow> unit io" where
  "bypassIntegrityMac p en =
     (let command = lit ''codesign --force --deep --sign - '' @ [dquote] @ ymPath p @ [dquote]
      in case exec en command of
           None \<Rightarrow> emit (Warn (lit ''Codesign failed. App might be damaged.''))
         | Some _ \<Rightarrow> emit (Exec command))"

definition run_scan :: "buffer \<Rightarrow> buffer \<Rightarrow> buffer \<Rightarrow> buffer io" where
  "run_scan fileBuffer oldBuf newBuf w =
     (case scan_loop fileBuffer oldBuf newBuf 0 of
        None \<Rightarrow> None
      | Some patched \<Rightarrow> Some (Inr patched, w))"

definition bypassIntegrityWin :: "patcher \<Rightarrow> jsstring \<Rightarrow> jsstring \<Rightarrow> unit io" where
  "bypassIntegrityWin p oldHash newHash =
     (case ymExePath p of
        None \<Rightarrow> io_return ()
      | Some exe \<Rightarrow>
          io_bind (existsSync exe) (\<lambda>found.
            if \<not> found \<or> oldHash = newHash then io_return ()
            else
              io_seq
                (io_bind (existsSync (exe @ lit ''.backup'')) (\<lambda>saved.
                   if \<not> saved then copyFile exe (exe @ lit ''.backup'') else io_return ()))
                (io_bind (readFile exe) (\<lambda>fileBuffer.
                   let oldBuf = Buffer_from_ascii oldHash;
                       newBuf = Buffer_from_ascii newHash
                   in if Buffer_indexOf fileBuffer oldBuf 0 = None then
                        emit (Warn (lit ''Original hash not found in EXE. Already patched?''))
                      else
                        io_bind (run_scan fileBuffer oldBuf newBuf) (\<lambda>patched.
                          writeFile exe patched)))))"

text \<open>
  \<open>clearCaches\<close>: every entry of the temp directory is unlinked, the \<open>.backup\<close> files only
  when \<open>forced\<close>. Without entries (or without the directory) nothing happens.
\<close>

fun clear_entries :: "patcher \<Rightarrow> bool \<Rightarrow> jsstring list \<Rightarrow> unit io" where
  "clear_entries p forced [] = io_return ()"
| "clear_entries p forced (file # rest) =
     io_seq (if forced \<or> \<not> endsWith file (lit ''.backup'')
             then unlink (path_join [tmpDir p, file]) else io_return ())
       (clear_entries p forced rest)"

definition clearCaches :: "patcher \<Rightarrow> bool \<Rightarrow> unit io" where
  "clearCaches p forced = io_bind (readdir (tmpDir p)) (clear_entries p forced)"

section \<open>The patch run\<close>

definition patch :: "patcher \<Rightarrow> env \<Rightarrow> bool \<Rightarrow> unit io" where
  "patch p en spinner =
     io_bind (checkInstallPossible p en) (\<lambda>check.
       if \<not> status check then io_throw (Error (case message check of None \<Rightarrow> [] | Some m \<Rightarrow> m))
       else
         io_seq (updateStatus (lit ''Checking process status...''))
        (let processes = getYandexMusicProcesses p en in
         io_seq
           (if processes \<noteq> [] then
              (if \<not> force (opts p) then
                 io_throw (Error (lit ''Yandex Music is running. Please close it or use --force to kill it.''))
               else io_seq (updateStatus (lit ''Closing Yandex Music...'')) (killProcesses processes))
            else io_return ())
        (io_bind
           (if platform p = Win32 then
              io_seq (updateStatus (lit ''Calculating integrity hash...''))
                (calculateAsarHeaderHash en (ymAsarPath p))
            else io_return [])
           (\<lambda>originalHash.
         io_seq (updateStatus (lit ''Fetching release info...''))
        (io_bind (fetchRelease en) (\<lambda>metadata.
         io_seq (updateStatus (lit ''Downloading assets...''))
        (io_seq (downloadModFiles p en spinner metadata)
        (io_seq (updateStatus (lit ''Backing up...''))
        (io_seq (createBackup p)
        (io_seq (updateStatus (lit ''Applying patch...''))
        (io_seq (replaceAsar p)
        (io_seq
           (if platform p = Win32 then
              io_bind (calculateAsarHeaderHash en (ymAsarPath p)) (\<lambda>newHash.
                io_seq (updateStatus (lit ''Patching executable integrity...''))
                  (bypassIntegrityWin p originalHash newHash))
            else if platform p = Darwin then bypassIntegrityMac p en
            else io_return ())
        (io_seq (if \<not> keepCache (opts p) then clearCaches p False else io_return ())
           (if processes \<noteq> [] then
              io_seq (updateStatus (lit ''Restarting Yandex Music...'')) (launchYandexMusic p en)
            else io_return ()))))))))))))))"


section \<open>Notions used to state the properties\<close>

text \<open>
  The start indices of the occurrences of \<open>v\<close> in \<open>f\<close>, and what it means that no two
  of them overlap.
\<close>

definition occurrences :: "buffer \<Rightarrow> buffer \<Rightarrow> nat list" where
  "occurrences f v = filter (occurs_at f v) [0..<Suc (length f)]"

definition non_overlapping :: "buffer \<Rightarrow> buffer \<Rightarrow> bool" where
  "non_overlapping f v \<longleftrightarrow>
     (\<forall>i j. occurs_at f v i \<and> occurs_at f v j \<and> i < j \<longrightarrow> i + length v \<le> j)"

text \<open>
  The world after the backup step of \<open>bypassIntegrityWin\<close>, for an executable \<open>exe\<close> with
  content \<open>f\<close>: the copy is made only when no backup exists.
\<close>

definition backed_up :: "jsstring \<Rightarrow> buffer \<Rightarrow> world \<Rightarrow> world" where
  "backed_up exe f w =
     (if map_of (files w) (exe @ lit ''.backup'') = None
      then w\<lparr>files := AList.update (exe @ lit ''.backup'') f (files w),
              events := events w @ [CopyFile exe (exe @ lit ''.backup'')]\<rparr>
      else w)"

text \<open>
  A Windows patcher as the constructor builds it for the home directory \<open>/h\<close> and
  \<open>LOCALAPPDATA = /l\<close>, used for the concrete runs below.
\<close>

definition demo_options :: options where
  "demo_options = \<lparr> patchType = Default, customPath = [], useCache = True,
                     keepCache = True, githubToken = [], force = False \<rparr>"

definition demo_exe :: jsstring where
  "demo_exe = lit ''/l/Programs/YandexMusic/'' @ ym_name @ lit ''.exe''"

definition demo_patcher :: patcher where
  "demo_patcher =
     \<lparr> platform = Win32, opts = demo_options,
       cacheDir = lit ''/h/.ymmp-cache'', tmpDir = lit ''/h/.ymmp-cache/temp'',
       ymPath = lit ''/l/Programs/YandexMusic'',
       ymAsarPath = lit ''/l/Programs/YandexMusic/resources/app.asar'',
       ymExePath = Some demo_exe \<rparr>"

text \<open>
  A sequence of \<open>bypassIntegrityWin\<close> calls on one patcher, each with its own pair of
  digests, whatever each call returns or throws; and the number of times the journal
  records the creation of the executable's backup.
\<close>

fun patchExecutable_calls :: "patcher \<Rightarrow> (jsstring \<times> jsstring) list \<Rightarrow> world \<Rightarrow> world option" where
  "patchExecutable_calls p [] w = Some w"
| "patchExecutable_calls p ((oldHash, newHash) # rest) w =
     (case bypassIntegrityWin p oldHash newHash w of
        None \<Rightarrow> None
      | Some (_, w') \<Rightarrow> patchExecutable_calls p rest w')"

definition backup_copies :: "jsstring \<Rightarrow> world \<Rightarrow> nat" where
  "backup_copies exe w =
     length (filter (\<lambda>e. e = CopyFile exe (exe @ lit ''.backup'')) (events w))"

definition demo_exe_world :: world where
  "demo_exe_world = \<lparr>files = [(demo_exe, [0x61, 0x62, 0x30, 0x61, 0x62])], events = []\<rparr>"

text \<open>
  The requests a run sends to the release service, in order.
\<close>

fun is_request :: "event \<Rightarrow> bool" where
  "is_request (HttpGet _) = True"
| "is_request _ = False"

definition network_calls :: "world \<Rightarrow> event list" where
  "network_calls w = filter is_request (events w)"

text \<open>
  What a run leaves to be observed: its result and a view \<open>g\<close> of the final world.
\<close>

definition observe :: "(world \<Rightarrow> 'b) \<Rightarrow> 'a io \<Rightarrow> world \<Rightarrow> ((error + 'a) \<times> 'b) option" where
  "observe g m w = map_option (\<lambda>(r, w'). (r, g w')) (m w)"

text \<open>
  Concrete releases, surroundings and file systems for the runs below. The environment
  \<open>demo_env\<close> finds no process (the listing tool fails), takes the content of an archive
  as its header and the header as its own digest, serves four bytes for the compressed
  asset and two for any other, and decompresses by dropping the two gzip magic bytes.
  \<open>demo_row\<close> is one row of the Windows task list, for the process id 1234.
\<close>

definition demo_asset_gz :: asset where
  "demo_asset_gz = \<lparr> asset_name = lit ''app.asar.gz'',
                      browser_download_url = lit ''https://example.org/app.asar.gz'',
                      asset_size = 4 \<rparr>"

definition demo_asset_plain :: asset where
  "demo_asset_plain = \<lparr> asset_name = lit ''app.asar'',
                         browser_download_url = lit ''https://example.org/app.asar'',
                         asset_size = 2 \<rparr>"

definition demo_asset_devtools :: asset where
  "demo_asset_devtools = \<lparr> asset_name = lit ''appDevTools.asar'',
                            browser_download_url = lit ''https://example.org/appDevTools.asar'',
                            asset_size = 2 \<rparr>"

definition demo_release :: "asset list \<Rightarrow> release_metadata" where
  "demo_release as = \<lparr> release_name = lit ''v1'', published_at = lit ''2025-01-01'', assets = as \<rparr>"

definition demo_row :: jsstring where
  "demo_row = [dquote] @ ym_name @ lit ''.exe'' @ [dquote] @ lit '','' @ [dquote] @ lit ''1234''
     @ [dquote] @ lit '','' @ [dquote] @ lit ''Console'' @ [dquote] @ lit '','' @ [dquote]
     @ lit ''1'' @ [dquote] @ lit '','' @ [dquote] @ lit ''100 K'' @ [dquote] @ [0x0D, 0x0A]"


definition demo_env :: env where
  "demo_env =
     \<lparr> access_rw = (\<lambda>_. True),
       exec = (\<lambda>_. None),
       getRawHeader = (\<lambda>content. Some (map ucast content)),
       sha256_hex = (\<lambda>header. header),
       getLatestRelease = Inr (demo_release [demo_asset_gz]),
       downloadStream = (\<lambda>url. if url = lit ''https://example.org/app.asar.gz''
                                then Inr [0x1F, 0x8B, 0x78, 0x79] else Inr [0x78, 0x79]),
       unzip = (\<lambda>c. if take 2 c = [0x1F, 0x8B] then Some (drop 2 c) else None) \<rparr>"

definition demo_env_running :: env where
  "demo_env_running = demo_env\<lparr> exec := (\<lambda>_. Some demo_row) \<rparr>"

definition demo_devtools_env :: env where
  "demo_devtools_env = demo_env\<lparr> getLatestRelease := Inr (demo_release [demo_asset_devtools]) \<rparr>"

definition demo_asar :: jsstring where
  "demo_asar = lit ''/l/Programs/YandexMusic/resources/app.asar''"

definition demo_tmp :: "string \<Rightarrow> jsstring" where
  "demo_tmp name = lit ''/h/.ymmp-cache/temp/'' @ lit name"

definition demo_world :: world where
  "demo_world = \<lparr>files = [(demo_asar, [0x61, 0x62]),
                           (demo_exe, [0x61, 0x62, 0x30, 0x61, 0x62])], events = []\<rparr>"

definition demo_devtools_patcher :: patcher where
  "demo_devtools_patcher =
     demo_patcher\<lparr> platform := Linux, ymExePath := None,
                   opts := demo_options\<lparr> patchType := DevtoolsOnly, useCache := False \<rparr> \<rparr>"

definition demo_stale_world :: world where
  "demo_stale_world = \<lparr>files = [(demo_asar, [0x61, 0x62]), (demo_tmp ''app.asar'', [0x39, 0x39])],
                        events = []\<rparr>"

definition demo_cached_world :: world where
  "demo_cached_world =
     \<lparr>files = [(demo_asar, [0x61, 0x62]), (demo_tmp ''app.asar.gz'', [0x1F, 0x8B, 0x78, 0x79])],
      events = []\<rparr>"

definition demo_truncated_world :: world where
  "demo_truncated_world =
     \<lparr>files = [(demo_asar, [0x61, 0x62]), (demo_tmp ''app.asar.gz'', [0x1F])], events = []\<rparr>"








section \<open>Notions used to follow a patch run\<close>

text \<open>
  Whether an effect writes a path; the status line that announces the replacement; the
  path of the archive's backup.
\<close>

fun writes :: "event \<Rightarrow> jsstring \<Rightarrow> bool" where
  "writes (CopyFile src dest) x = (dest = x)"
| "writes (WriteFile dest) x = (dest = x)"
| "writes (Unlink dest) x = (dest = x)"
| "writes _ x = False"

definition applying :: event where
  "applying = Status (lit ''Applying patch...'')"

definition backupPath :: "patcher \<Rightarrow> jsstring" where
  "backupPath p = path_join [tmpDir p, lit ''app.asar.backup'']"

text \<open>
  An action spares a path when no run of it changes the file there or journals a write
  to it, and no run announces the replacement.
\<close>

definition spares :: "jsstring \<Rightarrow> 'a io \<Rightarrow> bool" where
  "spares x m \<longleftrightarrow>
     (\<forall>w r w'. m w = Some (r, w') \<longrightarrow>
        (\<exists>ev. events w' = events w @ ev \<and> (\<forall>e\<in>set ev. e \<noteq> applying \<and> \<not> writes e x)) \<and>
        map_of (files w') x = map_of (files w) x)"

named_theorems spares_intros

text \<open>
  What the constructor guarantees about the paths of a patcher.
\<close>

definition paths_ok :: "patcher \<Rightarrow> bool" where
  "paths_ok p \<longleftrightarrow>
     (\<exists>y. ymAsarPath p = y @ lit ''s/app.asar'') \<and>
     (\<exists>c. tmpDir p = c @ lit ''/temp'') \<and>
     (\<forall>e. ymExePath p = Some e \<longrightarrow> (\<exists>x. e = x @ lit ''.exe''))"

text \<open>
  The three stages of a run that started in \<open>w0\<close>: the archive still untouched; the
  backup just copied; the replacement announced, with the backup holding the archive of
  \<open>w0\<close>. \<open>triple P m Q F\<close> says that a run of \<open>m\<close> from a world in \<open>P\<close> ends in
  \<open>Q\<close> when it returns and in \<open>F\<close> when it throws.
\<close>

definition before_backup :: "patcher \<Rightarrow> world \<Rightarrow> world \<Rightarrow> bool" where
  "before_backup p w0 w \<longleftrightarrow>
     (\<exists>ev. events w = events w0 @ ev \<and>
           (\<forall>e\<in>set ev. e \<noteq> applying \<and> \<not> writes e (ymAsarPath p))) \<and>
     map_of (files w) (ymAsarPath p) = map_of (files w0) (ymAsarPath p)"

definition backup_made :: "patcher \<Rightarrow> world \<Rightarrow> world \<Rightarrow> bool" where
  "backup_made p w0 w \<longleftrightarrow>
     (\<exists>c pre. map_of (files w0) (ymAsarPath p) = Some c \<and>
        map_of (files w) (ymAsarPath p) = Some c \<and>
        map_of (files w) (backupPath p) = Some c \<and>
        events w = events w0 @ pre @ [CopyFile (ymAsarPath p) (backupPath p)] \<and>
        (\<forall>e\<in>set pre. e \<noteq> applying \<and> \<not> writes e (ymAsarPath p)))"

definition after_backup :: "patcher \<Rightarrow> world \<Rightarrow> world \<Rightarrow> bool" where
  "after_backup p w0 w \<longleftrightarrow>
     (\<exists>c pre post. map_of (files w0) (ymAsarPath p) = Some c \<and>
        map_of (files w) (backupPath p) = Some c \<and>
        events w = events w0 @ pre @ CopyFile (ymAsarPath p) (backupPath p) # applying # post \<and>
        (\<forall>e\<in>set pre. e \<noteq> applying \<and> \<not> writes e (ymAsarPath p)))"

definition run_state :: "patcher \<Rightarrow> world \<Rightarrow> world \<Rightarrow> bool" where
  "run_state p w0 w \<longleftrightarrow> before_backup p w0 w \<or> backup_made p w0 w \<or> after_backup p w0 w"

definition triple :: "(world \<Rightarrow> bool) \<Rightarrow> 'a io \<Rightarrow> ('a \<Rightarrow> world \<Rightarrow> bool) \<Rightarrow> (world \<Rightarrow> bool) \<Rightarrow> bool" where
  "triple P m Q F \<longleftrightarrow>
     (\<forall>w r w'. P w \<longrightarrow> m w = Some (r, w') \<longrightarrow> (case r of Inl e \<Rightarrow> F w' | Inr v \<Rightarrow> Q v w'))"

definition demo_clearing_patcher :: patcher where
  "demo_clearing_patcher = demo_patcher\<lparr> opts := demo_options\<lparr> keepCache := False \<rparr> \<rparr>"

section \<open>Facts about the buffer operations\<close>

lemma occurs_at_nth:
  "occurs_at f v i \<longleftrightarrow> i + length v \<le> length f \<and> (\<forall>m<length v. f ! (i + m) = v ! m)"
  unfolding occurs_at_def
  by (auto simp: list_eq_iff_nth_eq)

lemma prefix_drop_occurs:
  assumes "v \<noteq> []"
  shows "prefix v (drop j xs) \<longleftrightarrow> occurs_at xs v j"
proof
  assume "prefix v (drop j xs)"
  then obtain zs where e: "drop j xs = v @ zs" by (auto simp: prefix_def)
  then have "length xs - j = length v + length zs" by (metis length_drop length_append)
  moreover have "0 < length v" using assms by simp
  ultimately have "j + length v \<le> length xs" by arith
  moreover have "take (length v) (drop j xs) = v" using e by simp
  ultimately show "occurs_at xs v j" by (simp add: occurs_at_def)
next
  assume "occurs_at xs v j"
  then have "take (length v) (drop j xs) = v" by (simp add: occurs_at_def)
  then show "prefix v (drop j xs)" by (metis take_is_prefix)
qed

lemma index_from_Some:
  "index_from xs v i = Some k \<Longrightarrow>
     i \<le> k \<and> k - i < length xs \<and> prefix v (drop (k - i) xs) \<and>
     (\<forall>j<k - i. \<not> prefix v (drop j xs))"
proof (induction xs arbitrary: i)
  case Nil
  then show ?case by simp
next
  case (Cons x xs)
  show ?case
  proof (cases "prefix v (x # xs)")
    case True
    with Cons.prems show ?thesis by simp
  next
    case False
    with Cons.prems have r: "index_from xs v (Suc i) = Some k" by simp
    from Cons.IH[OF r] have ih: "Suc i \<le> k" "k - Suc i < length xs"
      "prefix v (drop (k - Suc i) xs)" "\<forall>j<k - Suc i. \<not> prefix v (drop j xs)" by auto
    have e: "k - i = Suc (k - Suc i)" using ih(1) by arith
    have "\<not> prefix v (drop j (x # xs))" if "j < k - i" for j
      using that False ih(4) e by (cases j) auto
    then show ?thesis using ih e by auto
  qed
qed

lemma index_from_None:
  "index_from xs v i = None \<Longrightarrow> j < length xs \<Longrightarrow> \<not> prefix v (drop j xs)"
proof (induction xs arbitrary: i j)
  case Nil
  then show ?case by simp
next
  case (Cons x xs)
  then show ?case by (cases j) (auto split: if_splits)
qed

lemma Buffer_indexOf_Some:
  assumes "v \<noteq> []" "Buffer_indexOf f v off = Some idx"
  shows "off \<le> idx" "occurs_at f v idx" "\<And>j. off \<le> j \<Longrightarrow> j < idx \<Longrightarrow> \<not> occurs_at f v j"
proof -
  from assms have r: "index_from (drop off f) v off = Some idx"
    by (simp add: Buffer_indexOf_def)
  note h = index_from_Some[OF r]
  show "off \<le> idx" using h by simp
  have e: "idx - off + off = idx" using h by arith
  have "prefix v (drop (idx - off) (drop off f))" using h by blast
  then have "prefix v (drop idx f)" by (simp only: drop_drop e)
  then show "occurs_at f v idx" by (simp add: prefix_drop_occurs[OF assms(1)])
  fix j assume j: "off \<le> j" "j < idx"
  then have "j - off < idx - off" by arith
  then have "\<not> prefix v (drop (j - off) (drop off f))" using h by blast
  moreover have "j - off + off = j" using j by arith
  ultimately have "\<not> prefix v (drop j f)" by (metis drop_drop)
  then show "\<not> occurs_at f v j" by (simp add: prefix_drop_occurs[OF assms(1)])
qed

lemma Buffer_indexOf_None:
  assumes "v \<noteq> []" "Buffer_indexOf f v off = None" "off \<le> j"
  shows "\<not> occurs_at f v j"
proof
  assume o: "occurs_at f v j"
  from assms have r: "index_from (drop off f) v off = None"
    by (simp add: Buffer_indexOf_def)
  from o assms(1) have "j < length f" by (cases v) (auto simp: occurs_at_def)
  then have "j - off < length (drop off f)" using assms(3) by simp
  from index_from_None[OF r this] have "\<not> prefix v (drop (j - off) (drop off f))" .
  moreover have "j - off + off = j" using assms(3) by arith
  ultimately have "\<not> prefix v (drop j f)" by (metis drop_drop)
  then show False using o by (simp add: prefix_drop_occurs[OF assms(1)])
qed

lemma length_Buffer_copy [simp]: "length (Buffer_copy src target i) = length target"
  by (auto simp: Buffer_copy_def)

lemma nth_Buffer_copy:
  "k < length target \<Longrightarrow> i + length src \<le> length target \<Longrightarrow>
   Buffer_copy src target i ! k =
     (if i \<le> k \<and> k < i + length src then src ! (k - i) else target ! k)"
  by (auto simp: Buffer_copy_def nth_append)


lemma occurs_at_cong:
  assumes "length g = length f" "\<And>k. off \<le> k \<Longrightarrow> k < length f \<Longrightarrow> g ! k = f ! k" "off \<le> i"
  shows "occurs_at g v i \<longleftrightarrow> occurs_at f v i"
  using assms by (auto simp: occurs_at_nth)

lemma scan_loop_invariant:
  assumes ne: "old \<noteq> []" and len: "length new = length old"
    and nonoverlap: "\<And>i j. occurs_at f old i \<Longrightarrow> occurs_at f old j \<Longrightarrow> i < j \<Longrightarrow> i + length old \<le> j"
  shows "length g = length f \<Longrightarrow>
         (\<And>k. off \<le> k \<Longrightarrow> k < length f \<Longrightarrow> g ! k = f ! k) \<Longrightarrow>
         (\<And>i. occurs_at f old i \<Longrightarrow> i < off \<Longrightarrow> i + length old \<le> off) \<Longrightarrow>
         \<exists>r. scan_loop g old new off = Some r \<and> length r = length f \<and>
             (\<forall>k<off. k < length f \<longrightarrow> r ! k = g ! k) \<and>
             (\<forall>i. occurs_at f old i \<and> off \<le> i \<longrightarrow> (\<forall>m<length old. r ! (i + m) = new ! m)) \<and>
             (\<forall>k. off \<le> k \<and> k < length f \<and> (\<forall>i. occurs_at f old i \<longrightarrow> \<not> (i \<le> k \<and> k < i + length old))
                  \<longrightarrow> r ! k = f ! k)"
proof (induction "length f - off" arbitrary: g off rule: less_induct)
  case less
  note lg = less.prems(1) and agree = less.prems(2) and past = less.prems(3)
  have occ_eq: "occurs_at g old i \<longleftrightarrow> occurs_at f old i" if "off \<le> i" for i
    using occurs_at_cong[OF lg _ that] agree by blast
  show ?case
  proof (cases "Buffer_indexOf g old off")
    case None
    have no: "\<not> occurs_at f old i" if "off \<le> i" for i
      using Buffer_indexOf_None[OF ne None that] occ_eq[OF that] by simp
    have "scan_loop g old new off = Some g"
      using None by (subst scan_loop.simps) simp
    moreover have "\<forall>k. off \<le> k \<and> k < length f \<longrightarrow> g ! k = f ! k" using agree by blast
    ultimately show ?thesis using lg no by auto
  next
    case (Some idx)
    note h = Buffer_indexOf_Some[OF ne Some]
    have le: "off \<le> idx" by (rule h(1))
    have occ_f: "occurs_at f old idx" using h(2) occ_eq[OF le] by simp
    have fit: "idx + length old \<le> length f" using occ_f by (simp add: occurs_at_def)
    have first: "\<not> occurs_at f old j" if "off \<le> j" "j < idx" for j
      using h(3)[OF that] occ_eq[OF that(1)] by simp
    let ?g' = "Buffer_copy new g idx"
    let ?off' = "idx + length old"
    have pos: "0 < length old" using ne by simp
    have nth': "?g' ! k = (if idx \<le> k \<and> k < idx + length old then new ! (k - idx) else g ! k)"
      if "k < length f" for k
      using nth_Buffer_copy[of k g idx new] that fit lg len by simp
    have m: "length f - ?off' < length f - off" using fit le pos by arith
    have p1: "length ?g' = length f" using lg by simp
    have p2: "?g' ! k = f ! k" if "?off' \<le> k" "k < length f" for k
      using nth'[OF that(2)] that agree[of k] le by simp
    have p3: "i + length old \<le> ?off'" if "occurs_at f old i" "i < ?off'" for i
    proof (cases "i < off")
      case True
      then show ?thesis using past[OF that(1)] le by simp
    next
      case False
      then have "\<not> i < idx" using first[of i] that(1) by auto
      moreover have "\<not> idx < i" using nonoverlap[OF occ_f that(1)] that(2) by auto
      ultimately show ?thesis by simp
    qed
    from less.hyps[OF m p1 p2 p3]
    obtain r where r: "scan_loop ?g' old new ?off' = Some r" "length r = length f"
      and ra: "\<And>k. k < ?off' \<Longrightarrow> k < length f \<Longrightarrow> r ! k = ?g' ! k"
      and rb: "\<And>i m. occurs_at f old i \<Longrightarrow> ?off' \<le> i \<Longrightarrow> m < length old \<Longrightarrow> r ! (i + m) = new ! m"
      and rc: "\<And>k. ?off' \<le> k \<Longrightarrow> k < length f \<Longrightarrow> (\<forall>i. occurs_at f old i \<longrightarrow> \<not> (i \<le> k \<and> k < i + length old))
                  \<Longrightarrow> r ! k = f ! k"
      by blast
    have s: "scan_loop g old new off = Some r"
      using Some r(1) by (subst scan_loop.simps) simp
    have a: "r ! k = g ! k" if "k < off" "k < length f" for k
      using ra[of k] nth'[OF that(2)] that le by simp
    have b: "r ! (i + m) = new ! m" if "occurs_at f old i" "off \<le> i" "m < length old" for i m
    proof (cases "i = idx")
      case True
      have "idx + m < length f" using fit that(3) by arith
      then show ?thesis using ra[of "idx + m"] nth'[of "idx + m"] that(3) True by simp
    next
      case False
      have "\<not> i < idx" using first[of i] that by auto
      then have "idx < i" using False by simp
      then have "?off' \<le> i" using nonoverlap[OF occ_f that(1)] by simp
      then show ?thesis using rb[OF that(1) _ that(3)] by simp
    qed
    have c: "r ! k = f ! k"
      if "off \<le> k" "k < length f" "\<forall>i. occurs_at f old i \<longrightarrow> \<not> (i \<le> k \<and> k < i + length old)" for k
    proof (cases "k < idx")
      case True
      then show ?thesis using ra[of k] nth'[OF that(2)] agree[OF that(1,2)] that(2) by simp
    next
      case False
      then have "?off' \<le> k" using that(3) occ_f by auto
      then show ?thesis using rc[OF _ that(2,3)] by simp
    qed
    show ?thesis using s r(2) a b c by blast
  qed
qed


lemma scan_loop_returns:
  "oldBuf \<noteq> [] \<Longrightarrow> \<exists>r. scan_loop f oldBuf newBuf offset = Some r \<and> length r = length f"
proof (induction "length f - offset" arbitrary: f offset rule: less_induct)
  case less
  show ?case
  proof (cases "Buffer_indexOf f oldBuf offset")
    case None
    then have "scan_loop f oldBuf newBuf offset = Some f"
      by (subst scan_loop.simps) simp
    then show ?thesis by simp
  next
    case (Some idx)
    note h = Buffer_indexOf_Some[OF less.prems Some]
    have fit: "idx + length oldBuf \<le> length f" using h(2) by (simp add: occurs_at_def)
    have pos: "0 < length oldBuf" using less.prems by simp
    have "length f - (idx + length oldBuf) < length f - offset"
      using fit h(1) pos by arith
    then have "length (Buffer_copy newBuf f idx) - (idx + length oldBuf) < length f - offset"
      by simp
    from less.hyps[OF this less.prems]
    obtain r where "scan_loop (Buffer_copy newBuf f idx) oldBuf newBuf (idx + length oldBuf) = Some r"
      "length r = length f" by auto
    then show ?thesis using Some by (subst scan_loop.simps) simp
  qed
qed

section \<open>The scan loop terminates\<close>

text \<open>
  C10. For every file buffer and every non-empty old digest, the scan loop of
  \<open>bypassIntegrityWin\<close> returns. An iteration that finds no further occurrence leaves the
  loop with the buffer as it is; an iteration that finds one at \<open>idx\<close> continues from
  \<open>idx + length oldBuf\<close>, which is at least \<open>length oldBuf\<close> beyond the old offset,
  strictly greater than it, and still within the buffer, whose length the copy keeps.
\<close>

theorem scan_loop_terminates:
  assumes "oldBuf \<noteq> []"
  shows "(\<exists>r. scan_loop fileBuffer oldBuf newBuf offset = Some r) \<and>
         (Buffer_indexOf fileBuffer oldBuf offset = None \<longrightarrow>
            scan_loop fileBuffer oldBuf newBuf offset = Some fileBuffer) \<and>
         (\<forall>idx. Buffer_indexOf fileBuffer oldBuf offset = Some idx \<longrightarrow>
            offset + length oldBuf \<le> idx + length oldBuf \<and>
            offset < idx + length oldBuf \<and>
            idx + length oldBuf \<le> length fileBuffer \<and>
            length (Buffer_copy newBuf fileBuffer idx) = length fileBuffer \<and>
            scan_loop fileBuffer oldBuf newBuf offset =
              scan_loop (Buffer_copy newBuf fileBuffer idx) oldBuf newBuf (idx + length oldBuf))"
proof (intro conjI allI impI)
  show "\<exists>r. scan_loop fileBuffer oldBuf newBuf offset = Some r"
    using scan_loop_returns[OF assms] by blast
next
  assume "Buffer_indexOf fileBuffer oldBuf offset = None"
  then show "scan_loop fileBuffer oldBuf newBuf offset = Some fileBuffer"
    by (subst scan_loop.simps) simp
next
  fix idx assume s: "Buffer_indexOf fileBuffer oldBuf offset = Some idx"
  note h = Buffer_indexOf_Some[OF assms s]
  have pos: "0 < length oldBuf" using assms by simp
  show "offset + length oldBuf \<le> idx + length oldBuf" using h(1) by simp
  show "offset < idx + length oldBuf" using h(1) pos by arith
  show "idx + length oldBuf \<le> length fileBuffer" using h(2) by (simp add: occurs_at_def)
  show "length (Buffer_copy newBuf fileBuffer idx) = length fileBuffer" by simp
  show "scan_loop fileBuffer oldBuf newBuf offset =
          scan_loop (Buffer_copy newBuf fileBuffer idx) oldBuf newBuf (idx + length oldBuf)"
    using s by (subst scan_loop.simps) simp
qed

theorem scan_loop_terminates_witness:
  "[1, 2] \<noteq> ([] :: buffer) \<and>
   scan_loop [1, 2, 3, 1, 2, 4] [1, 2] [7, 8] 0 = Some [7, 8, 3, 7, 8, 4] \<and>
   Buffer_indexOf [1, 2, 3, 1, 2, 4] [1, 2] 1 = Some 3 \<and>
   length (Buffer_copy [7, 8] [1, 2, 3, 1, 2, 4] 3) = 6 \<and>
   scan_loop [7, 8, 3, 1, 2, 4] [1, 2] [7, 8] 1 = scan_loop [7, 8, 3, 7, 8, 4] [1, 2] [7, 8] 5"
  using scan_loop_terminates[of "[1, 2]" "[7, 8, 3, 1, 2, 4]" "[7, 8]" 1]
    scan_loop_terminates[of "[1, 2]" "[1, 2, 3, 1, 2, 4]" "[7, 8]" 0]
  by (simp add: Buffer_indexOf_def Buffer_copy_def scan_loop.simps)

section \<open>Facts about the integrity bypass\<close>


lemma backup_path_neq: "exe @ lit ''.backup'' \<noteq> exe"
  by (simp add: lit_def)

lemma Buffer_from_ascii_Nil [simp]: "Buffer_from_ascii s = [] \<longleftrightarrow> s = []"
  by (simp add: Buffer_from_ascii_def)

lemma length_Buffer_from_ascii [simp]: "length (Buffer_from_ascii s) = length s"
  by (simp add: Buffer_from_ascii_def)

lemma bypassIntegrityWin_unfold:
  "bypassIntegrityWin p oldHash newHash w =
     (case ymExePath p of
        None \<Rightarrow> Some (Inr (), w)
      | Some exe \<Rightarrow>
          (case map_of (files w) exe of
             None \<Rightarrow> Some (Inr (), w)
           | Some f \<Rightarrow>
               if oldHash = newHash then Some (Inr (), w)
               else if Buffer_indexOf f (Buffer_from_ascii oldHash) 0 = None then
                 Some (Inr (), (backed_up exe f w)\<lparr>events := events (backed_up exe f w) @
                    [Warn (lit ''Original hash not found in EXE. Already patched?'')]\<rparr>)
               else
                 (case scan_loop f (Buffer_from_ascii oldHash) (Buffer_from_ascii newHash) 0 of
                    None \<Rightarrow> None
                  | Some r \<Rightarrow>
                      Some (Inr (), (backed_up exe f w)\<lparr>
                        files := AList.update exe r (files (backed_up exe f w)),
                        events := events (backed_up exe f w) @ [WriteFile exe]\<rparr>))))"
  using backup_path_neq[of "the (ymExePath p)"]
  by (auto simp: bypassIntegrityWin_def io_bind_def io_seq_def io_return_def existsSync_def
      copyFile_def readFile_def emit_def run_scan_def writeFile_def backed_up_def Let_def
      update_conv'
      split: option.splits)

lemma demo_patcher_constructed:
  "Patcher_new Win32 (lit ''/h'') (Some (lit ''/l'')) None
     \<lparr> raw_patchType = None, raw_customPath = None, raw_useCache = None,
       raw_keepCache = None, raw_githubToken = None, raw_force = None \<rparr> = Inr demo_patcher"
  by (simp add: Patcher_new_def demo_patcher_def demo_options_def demo_exe_def or_string_def
      getDefaultYMPath_def resolveAsarPath_def resolveExePath_def path_join_def lit_def
      slash_def ym_name_def Let_def)


lemma occurs_at_occurrences: "occurs_at f v i \<longleftrightarrow> i \<in> set (occurrences f v)"
proof -
  have "i < Suc (length f)" if "occurs_at f v i"
    using that unfolding occurs_at_def by arith
  then show ?thesis by (auto simp del: upt_Suc simp: occurrences_def)
qed

lemma scan_loop_from_start:
  assumes ne: "old \<noteq> []" and len: "length new = length old" and no: "non_overlapping f old"
  shows "\<exists>r. scan_loop f old new 0 = Some r \<and> length r = length f \<and>
           (\<forall>i. occurs_at f old i \<longrightarrow> (\<forall>m<length old. r ! (i + m) = new ! m)) \<and>
           (\<forall>k<length f. (\<forall>i. occurs_at f old i \<longrightarrow> \<not> (i \<le> k \<and> k < i + length old))
              \<longrightarrow> r ! k = f ! k)"
proof -
  have "\<exists>r. scan_loop f old new 0 = Some r \<and> length r = length f \<and>
             (\<forall>k<0. k < length f \<longrightarrow> r ! k = f ! k) \<and>
             (\<forall>i. occurs_at f old i \<and> 0 \<le> i \<longrightarrow> (\<forall>m<length old. r ! (i + m) = new ! m)) \<and>
             (\<forall>k. 0 \<le> k \<and> k < length f \<and> (\<forall>i. occurs_at f old i \<longrightarrow> \<not> (i \<le> k \<and> k < i + length old))
                  \<longrightarrow> r ! k = f ! k)"
  proof (rule scan_loop_invariant[where f = f and g = f and off = 0, OF ne len])
    fix i j assume "occurs_at f old i" "occurs_at f old j" "i < j"
    then show "i + length old \<le> j" using no unfolding non_overlapping_def by blast
  qed simp_all
  then show ?thesis by auto
qed

lemma non_overlapping_occurrences:
  "non_overlapping f v \<longleftrightarrow>
     (\<forall>i\<in>set (occurrences f v). \<forall>j\<in>set (occurrences f v). i < j \<longrightarrow> i + length v \<le> j)"
  by (auto simp: non_overlapping_def occurs_at_occurrences)

section \<open>Hash substitution\<close>

text \<open>
  C1. Let the executable exist with content \<open>f\<close>, let the old digest be non-empty (a
  digest is a SHA-256 hex string) and the new digest of the same length, and let no two
  occurrences of the ASCII-encoded old digest in \<open>f\<close> overlap. Then \<open>bypassIntegrityWin\<close>
  returns normally and leaves a file \<open>r\<close> of the same length in which the ASCII-encoded new
  digest stands at every index where the old one occurred in \<open>f\<close>, and in which every byte
  outside those occurrences is the byte of \<open>f\<close>.
\<close>

theorem patchExecutable_replaces_occurrences:
  assumes exe: "ymExePath p = Some exe" and f: "map_of (files w) exe = Some f"
    and ne: "oldHash \<noteq> []" and len: "length newHash = length oldHash"
    and no: "non_overlapping f (Buffer_from_ascii oldHash)"
  shows "\<exists>w' r. bypassIntegrityWin p oldHash newHash w = Some (Inr (), w') \<and>
           map_of (files w') exe = Some r \<and> length r = length f \<and>
           (\<forall>i. occurs_at f (Buffer_from_ascii oldHash) i \<longrightarrow>
                occurs_at r (Buffer_from_ascii newHash) i) \<and>
           (\<forall>k<length f.
              (\<forall>i. occurs_at f (Buffer_from_ascii oldHash) i \<longrightarrow> \<not> (i \<le> k \<and> k < i + length oldHash))
              \<longrightarrow> r ! k = f ! k)"
proof -
  let ?ob = "Buffer_from_ascii oldHash" and ?nb = "Buffer_from_ascii newHash"
  have one: "?ob \<noteq> []" using ne by simp
  have lb: "length ?nb = length ?ob" using len by simp
  have kept: "map_of (files (backed_up exe f w)) exe = Some f"
    using f backup_path_neq[of exe] by (simp add: backed_up_def update_conv')
  show ?thesis
  proof (cases "oldHash = newHash")
    case True
    then have "bypassIntegrityWin p oldHash newHash w = Some (Inr (), w)"
      using exe f by (simp add: bypassIntegrityWin_unfold)
    then show ?thesis using f True by auto
  next
    case diff: False
    show ?thesis
    proof (cases "Buffer_indexOf f ?ob 0")
      case None
      have absent: "\<not> occurs_at f ?ob i" for i
        using Buffer_indexOf_None[OF one None, of i] by simp
      have "bypassIntegrityWin p oldHash newHash w =
              Some (Inr (), (backed_up exe f w)\<lparr>events := events (backed_up exe f w) @
                    [Warn (lit ''Original hash not found in EXE. Already patched?'')]\<rparr>)"
        using exe f diff None by (simp add: bypassIntegrityWin_unfold)
      then show ?thesis using kept absent by auto
    next
      case (Some idx)
      from scan_loop_from_start[OF one lb no]
      obtain r where r: "scan_loop f ?ob ?nb 0 = Some r" "length r = length f"
        and rb: "\<And>i m. occurs_at f ?ob i \<Longrightarrow> m < length ?ob \<Longrightarrow> r ! (i + m) = ?nb ! m"
        and rc: "\<And>k. k < length f \<Longrightarrow>
                  (\<forall>i. occurs_at f ?ob i \<longrightarrow> \<not> (i \<le> k \<and> k < i + length ?ob)) \<Longrightarrow> r ! k = f ! k"
        by auto
      have res: "bypassIntegrityWin p oldHash newHash w =
              Some (Inr (), (backed_up exe f w)\<lparr>
                        files := AList.update exe r (files (backed_up exe f w)),
                        events := events (backed_up exe f w) @ [WriteFile exe]\<rparr>)"
        using exe f diff Some r(1) by (simp add: bypassIntegrityWin_unfold)
      have occ: "occurs_at r ?nb i" if "occurs_at f ?ob i" for i
      proof -
        have "i + length ?ob \<le> length f" using that by (simp add: occurs_at_def)
        then show ?thesis using rb[OF that] r(2) lb by (simp add: occurs_at_nth)
      qed
      show ?thesis using res r(2) occ rc by (auto simp: update_conv')
    qed
  qed
qed

theorem patchExecutable_replaces_occurrences_witness:
  "ymExePath demo_patcher = Some demo_exe \<and>
   map_of (files \<lparr>files = [(demo_exe, [0x61, 0x62, 0x30, 0x61, 0x62])], events = []\<rparr>) demo_exe
     = Some [0x61, 0x62, 0x30, 0x61, 0x62] \<and>
   lit ''ab'' \<noteq> [] \<and> length (lit ''xy'') = length (lit ''ab'') \<and>
   non_overlapping [0x61, 0x62, 0x30, 0x61, 0x62] (Buffer_from_ascii (lit ''ab'')) \<and>
   (\<exists>w'. bypassIntegrityWin demo_patcher (lit ''ab'') (lit ''xy'')
            \<lparr>files = [(demo_exe, [0x61, 0x62, 0x30, 0x61, 0x62])], events = []\<rparr> = Some (Inr (), w') \<and>
         map_of (files w') demo_exe = Some [0x78, 0x79, 0x30, 0x78, 0x79])"
proof -
  let ?f = "[0x61, 0x62, 0x30, 0x61, 0x62] :: buffer"
  let ?w = "\<lparr>files = [(demo_exe, ?f)], events = []\<rparr>"
  have h1: "ymExePath demo_patcher = Some demo_exe" by (simp add: demo_patcher_def)
  have h2: "map_of (files ?w) demo_exe = Some ?f" by simp
  have h3: "lit ''ab'' \<noteq> []" by (simp add: lit_def)
  have h4: "length (lit ''xy'') = length (lit ''ab'')" by (simp add: lit_def)
  have occ: "occurrences ?f (Buffer_from_ascii (lit ''ab'')) = [0, 3]"
    by (simp add: occurrences_def occurs_at_def Buffer_from_ascii_def lit_def upt_rec)
  have h5: "non_overlapping ?f (Buffer_from_ascii (lit ''ab''))"
    unfolding non_overlapping_occurrences occ by (simp add: lit_def)
  have res: "bypassIntegrityWin demo_patcher (lit ''ab'') (lit ''xy'') ?w =
      Some (Inr (), \<lparr>files = [(demo_exe, [0x78, 0x79, 0x30, 0x78, 0x79]),
                              (demo_exe @ lit ''.backup'', ?f)],
                     events = [CopyFile demo_exe (demo_exe @ lit ''.backup''), WriteFile demo_exe]\<rparr>)"
    by (simp add: bypassIntegrityWin_unfold backed_up_def h1 scan_loop.simps Buffer_indexOf_def
        Buffer_copy_def Buffer_from_ascii_def lit_def)
  show ?thesis
    using patchExecutable_replaces_occurrences[OF h1 h2 h3 h4 h5] h1 h3 h4 h5
    unfolding res by simp
qed

lemma bypassIntegrityWin_backup_step:
  assumes exe: "ymExePath p = Some exe"
    and run: "bypassIntegrityWin p oldHash newHash w = Some (res, w')"
  shows "map_of (files w) (exe @ lit ''.backup'') = Some b \<Longrightarrow>
           map_of (files w') (exe @ lit ''.backup'') = Some b \<and>
           backup_copies exe w' = backup_copies exe w"
    and "map_of (files w) (exe @ lit ''.backup'') = None \<Longrightarrow>
           backup_copies exe w' = backup_copies exe w \<or>
           (backup_copies exe w' = Suc (backup_copies exe w) \<and>
            map_of (files w') (exe @ lit ''.backup'') \<noteq> None)"
  using run exe backup_path_neq[of exe]
  by (auto simp: bypassIntegrityWin_unfold backed_up_def backup_copies_def update_conv'
      split: option.splits if_splits)

section \<open>The backup of the executable\<close>

text \<open>
  C9. Over every sequence of \<open>bypassIntegrityWin\<close> calls on one executable path, a backup
  \<open>exe.backup\<close> that exists when the sequence starts keeps its content to the end and no
  copy is made onto it; and in any case the backup is created at most once in the whole
  sequence.
\<close>

theorem exe_backup_created_at_most_once:
  assumes exe: "ymExePath p = Some exe"
    and run: "patchExecutable_calls p calls w = Some w'"
  shows "(\<forall>b. map_of (files w) (exe @ lit ''.backup'') = Some b \<longrightarrow>
            map_of (files w') (exe @ lit ''.backup'') = Some b \<and>
            backup_copies exe w' = backup_copies exe w) \<and>
         backup_copies exe w' \<le> Suc (backup_copies exe w)"
  using run
proof (induction calls arbitrary: w)
  case Nil
  then show ?case by simp
next
  case (Cons c calls)
  obtain oldHash newHash where c: "c = (oldHash, newHash)" by (cases c)
  from Cons.prems c obtain res w1 where
    one: "bypassIntegrityWin p oldHash newHash w = Some (res, w1)"
    and rest: "patchExecutable_calls p calls w1 = Some w'"
    by (auto split: option.splits)
  note ih = Cons.IH[OF rest]
  show ?case
  proof (cases "map_of (files w) (exe @ lit ''.backup'')")
    case (Some b)
    from bypassIntegrityWin_backup_step(1)[OF exe one Some]
    have "map_of (files w1) (exe @ lit ''.backup'') = Some b"
      "backup_copies exe w1 = backup_copies exe w" by auto
    then show ?thesis using ih Some by auto
  next
    case None
    from bypassIntegrityWin_backup_step(2)[OF exe one None]
    show ?thesis using ih None by auto
  qed
qed

lemma demo_exe_path: "ymExePath demo_patcher = Some demo_exe"
  by (simp add: demo_patcher_def)

lemma demo_first_call:
  "bypassIntegrityWin demo_patcher (lit ''ab'') (lit ''xy'') demo_exe_world =
      Some (Inr (), \<lparr>files = [(demo_exe, [0x78, 0x79, 0x30, 0x78, 0x79]),
                              (demo_exe @ lit ''.backup'', [0x61, 0x62, 0x30, 0x61, 0x62])],
                     events = [CopyFile demo_exe (demo_exe @ lit ''.backup''), WriteFile demo_exe]\<rparr>)"
  by (simp add: bypassIntegrityWin_unfold backed_up_def demo_exe_path demo_exe_world_def
      scan_loop.simps Buffer_indexOf_def Buffer_copy_def Buffer_from_ascii_def lit_def)

lemma demo_second_call:
  "bypassIntegrityWin demo_patcher (lit ''xy'') (lit ''cd'')
      \<lparr>files = [(demo_exe, [0x78, 0x79, 0x30, 0x78, 0x79]),
                (demo_exe @ lit ''.backup'', [0x61, 0x62, 0x30, 0x61, 0x62])],
        events = [CopyFile demo_exe (demo_exe @ lit ''.backup''), WriteFile demo_exe]\<rparr> =
      Some (Inr (), \<lparr>files = [(demo_exe, [0x63, 0x64, 0x30, 0x63, 0x64]),
                              (demo_exe @ lit ''.backup'', [0x61, 0x62, 0x30, 0x61, 0x62])],
                     events = [CopyFile demo_exe (demo_exe @ lit ''.backup''), WriteFile demo_exe,
                               WriteFile demo_exe]\<rparr>)"
  by (simp add: bypassIntegrityWin_unfold backed_up_def demo_exe_path
      scan_loop.simps Buffer_indexOf_def Buffer_copy_def Buffer_from_ascii_def lit_def)

theorem exe_backup_created_at_most_once_witness:
  "ymExePath demo_patcher = Some demo_exe \<and>
   (\<exists>w'. patchExecutable_calls demo_patcher
            [(lit ''ab'', lit ''xy''), (lit ''xy'', lit ''cd'')] demo_exe_world = Some w' \<and>
         map_of (files w') demo_exe = Some [0x63, 0x64, 0x30, 0x63, 0x64] \<and>
         map_of (files w') (demo_exe @ lit ''.backup'') = Some [0x61, 0x62, 0x30, 0x61, 0x62] \<and>
         backup_copies demo_exe w' = 1 \<and>
         backup_copies demo_exe w' \<le> Suc (backup_copies demo_exe demo_exe_world))"
proof -
  let ?w' = "\<lparr>files = [(demo_exe, [0x63, 0x64, 0x30, 0x63, 0x64]),
                              (demo_exe @ lit ''.backup'', [0x61, 0x62, 0x30, 0x61, 0x62])],
                     events = [CopyFile demo_exe (demo_exe @ lit ''.backup''), WriteFile demo_exe,
                               WriteFile demo_exe]\<rparr>"
  have run: "patchExecutable_calls demo_patcher
            [(lit ''ab'', lit ''xy''), (lit ''xy'', lit ''cd'')] demo_exe_world = Some ?w'"
    by (simp add: demo_first_call demo_second_call)
  have "backup_copies demo_exe ?w' = 1" by (simp add: backup_copies_def)
  moreover have "map_of (files ?w') (demo_exe @ lit ''.backup'') = Some [0x61, 0x62, 0x30, 0x61, 0x62]"
    using backup_path_neq[of demo_exe] by simp
  ultimately show ?thesis
    using exe_backup_created_at_most_once[OF demo_exe_path run] demo_exe_path run
    by simp
qed

section \<open>When the executable is left alone\<close>

text \<open>
  C2, as amended. A call of \<open>bypassIntegrityWin\<close> leaves the executable byte-identical
  unless the digests differ and the old digest occurs in it: without an executable
  path, without the file or with equal digests the call returns with the world as it was
  (and so without a warning); with the file present, different digests and the old
  digest absent it returns normally, the executable's content is unchanged, and the
  last effect is the warning.
\<close>

theorem bypassIntegrityWin_leaves_exe:
  "(ymExePath p = None \<longrightarrow> bypassIntegrityWin p oldHash newHash w = Some (Inr (), w)) \<and>
   (\<forall>exe. ymExePath p = Some exe \<longrightarrow>
      (map_of (files w) exe = None \<or> oldHash = newHash \<longrightarrow>
         bypassIntegrityWin p oldHash newHash w = Some (Inr (), w)) \<and>
      (\<forall>f. map_of (files w) exe = Some f \<and> oldHash \<noteq> newHash \<and>
           (\<forall>i. \<not> occurs_at f (Buffer_from_ascii oldHash) i) \<longrightarrow>
         (\<exists>w'. bypassIntegrityWin p oldHash newHash w = Some (Inr (), w') \<and>
               map_of (files w') exe = Some f \<and>
               events w' = events (backed_up exe f w) @
                 [Warn (lit ''Original hash not found in EXE. Already patched?'')])))"
proof (intro conjI allI impI)
  assume "ymExePath p = None"
  then show "bypassIntegrityWin p oldHash newHash w = Some (Inr (), w)"
    by (simp add: bypassIntegrityWin_unfold)
next
  fix exe assume "ymExePath p = Some exe" "map_of (files w) exe = None \<or> oldHash = newHash"
  then show "bypassIntegrityWin p oldHash newHash w = Some (Inr (), w)"
    by (auto simp: bypassIntegrityWin_unfold split: option.splits)
next
  fix exe f
  assume exe: "ymExePath p = Some exe"
    and h: "map_of (files w) exe = Some f \<and> oldHash \<noteq> newHash \<and>
           (\<forall>i. \<not> occurs_at f (Buffer_from_ascii oldHash) i)"
  have "\<not> occurs_at f [] 0 \<Longrightarrow> False" by (simp add: occurs_at_def)
  with h have ne: "Buffer_from_ascii oldHash \<noteq> []" by metis
  have none: "Buffer_indexOf f (Buffer_from_ascii oldHash) 0 = None"
  proof (cases "Buffer_indexOf f (Buffer_from_ascii oldHash) 0")
    case (Some idx)
    from Buffer_indexOf_Some(2)[OF ne Some] h show ?thesis by blast
  qed simp
  have kept: "map_of (files (backed_up exe f w)) exe = Some f"
    using h backup_path_neq[of exe] by (simp add: backed_up_def update_conv')
  show "\<exists>w'. bypassIntegrityWin p oldHash newHash w = Some (Inr (), w') \<and>
               map_of (files w') exe = Some f \<and>
               events w' = events (backed_up exe f w) @
                 [Warn (lit ''Original hash not found in EXE. Already patched?'')]"
    using exe h none kept by (simp add: bypassIntegrityWin_unfold)
qed

theorem bypassIntegrityWin_leaves_exe_witness:
  "ymExePath demo_patcher = Some demo_exe \<and>
   map_of (files demo_exe_world) demo_exe = Some [0x61, 0x62, 0x30, 0x61, 0x62] \<and>
   lit ''cd'' \<noteq> lit ''xy'' \<and>
   occurrences [0x61, 0x62, 0x30, 0x61, 0x62] (Buffer_from_ascii (lit ''cd'')) = [] \<and>
   (\<exists>w'. bypassIntegrityWin demo_patcher (lit ''cd'') (lit ''xy'') demo_exe_world = Some (Inr (), w') \<and>
         map_of (files w') demo_exe = Some [0x61, 0x62, 0x30, 0x61, 0x62] \<and>
         events w' = [CopyFile demo_exe (demo_exe @ lit ''.backup''),
                      Warn (lit ''Original hash not found in EXE. Already patched?'')]) \<and>
   bypassIntegrityWin demo_patcher (lit ''ab'') (lit ''ab'') demo_exe_world
     = Some (Inr (), demo_exe_world)"
proof -
  let ?f = "[0x61, 0x62, 0x30, 0x61, 0x62] :: buffer"
  have f: "map_of (files demo_exe_world) demo_exe = Some ?f" by (simp add: demo_exe_world_def)
  have d: "lit ''cd'' \<noteq> lit ''xy''" by (simp add: lit_def)
  have occ: "occurrences ?f (Buffer_from_ascii (lit ''cd'')) = []"
    by (simp add: occurrences_def occurs_at_def Buffer_from_ascii_def lit_def upt_rec)
  have absent: "\<forall>i. \<not> occurs_at ?f (Buffer_from_ascii (lit ''cd'')) i"
    by (simp add: occurs_at_occurrences occ)
  have b: "events (backed_up demo_exe ?f demo_exe_world) = [CopyFile demo_exe (demo_exe @ lit ''.backup'')]"
    using backup_path_neq[of demo_exe] by (simp add: backed_up_def demo_exe_world_def)
  note t = bypassIntegrityWin_leaves_exe[of demo_patcher "lit ''cd''" "lit ''xy''" demo_exe_world]
  from t demo_exe_path f d absent
  have "\<exists>w'. bypassIntegrityWin demo_patcher (lit ''cd'') (lit ''xy'') demo_exe_world = Some (Inr (), w') \<and>
         map_of (files w') demo_exe = Some ?f \<and>
         events w' = events (backed_up demo_exe ?f demo_exe_world) @
                 [Warn (lit ''Original hash not found in EXE. Already patched?'')]"
    by blast
  moreover have "bypassIntegrityWin demo_patcher (lit ''ab'') (lit ''ab'') demo_exe_world
     = Some (Inr (), demo_exe_world)"
    using bypassIntegrityWin_leaves_exe[of demo_patcher "lit ''ab''" "lit ''ab''" demo_exe_world]
      demo_exe_path by blast
  ultimately show ?thesis using demo_exe_path f d occ b by simp
qed

text \<open>
  C2 as stated promises the warning whenever the old digest is absent. With equal
  digests the call returns before it looks at the file: the digest \<open>cd\<close> is absent from
  the executable below, and no warning is signaled.
\<close>

theorem absent_digest_without_warning:
  "occurrences [0x61, 0x62, 0x30, 0x61, 0x62] (Buffer_from_ascii (lit ''cd'')) = [] \<and>
   (\<exists>w'. bypassIntegrityWin demo_patcher (lit ''cd'') (lit ''cd'') demo_exe_world = Some (Inr (), w') \<and>
         map_of (files w') demo_exe = Some [0x61, 0x62, 0x30, 0x61, 0x62] \<and>
         Warn (lit ''Original hash not found in EXE. Already patched?'') \<notin> set (events w'))"
proof -
  have "occurrences [0x61, 0x62, 0x30, 0x61, 0x62] (Buffer_from_ascii (lit ''cd'')) = []"
    by (simp add: occurrences_def occurs_at_def Buffer_from_ascii_def lit_def upt_rec)
  moreover have "bypassIntegrityWin demo_patcher (lit ''cd'') (lit ''cd'') demo_exe_world
      = Some (Inr (), demo_exe_world)"
    by (simp add: bypassIntegrityWin_unfold demo_exe_path demo_exe_world_def)
  ultimately show ?thesis by (simp add: demo_exe_world_def)
qed

section \<open>Resolving the asset\<close>

lemma find_SomeD: "find P xs = Some a \<Longrightarrow> a \<in> set xs \<and> P a"
  by (induction xs) (auto split: if_splits)

lemma run_result:
  "observe g m w = Some (r0, v) \<Longrightarrow> \<exists>w'. m w = Some (r0, w') \<and> g w' = v"
  by (cases "m w") (auto simp: observe_def)

lemma demo_devtools_constructed:
  "Patcher_new Linux (lit ''/h'') None None
     \<lparr> raw_patchType = Some DevtoolsOnly, raw_customPath = Some (lit ''/l/Programs/YandexMusic''),
       raw_useCache = Some False, raw_keepCache = None, raw_githubToken = None, raw_force = None \<rparr>
   = Inr (demo_devtools_patcher\<lparr>opts := (opts demo_devtools_patcher)\<lparr>customPath := lit ''/l/Programs/YandexMusic''\<rparr>\<rparr>)"
  by (simp add: Patcher_new_def demo_patcher_def demo_options_def demo_devtools_patcher_def or_string_def
      getDefaultYMPath_def resolveAsarPath_def resolveExePath_def path_join_def lit_def
      slash_def ym_name_def Let_def)

text \<open>
  C7. For every release and requested variant, the asset named after the variant's
  archive (\<open>app.asar\<close> for the default patch, \<open>appDevTools.asar\<close> for the
  developer-tools one) with \<open>.gz\<close> appended is selected when the release has one;
  otherwise the asset with the plain name when the release has one; and when it has
  neither, \<open>downloadModFiles\<close> fails with the error \<open>No suitable asset found in release\<close>
  (the spec's AssetNotFoundError) and changes nothing.
\<close>

theorem resolveAsset_prefers_gz:
  "((\<exists>a\<in>set (assets m). asset_name a = assetPrefix p @ lit ''.gz'') \<longrightarrow>
      (\<exists>a. resolveAsset p m = Some a \<and> a \<in> set (assets m) \<and>
           asset_name a = assetPrefix p @ lit ''.gz'')) \<and>
   (\<not> (\<exists>a\<in>set (assets m). asset_name a = assetPrefix p @ lit ''.gz'') \<and>
    (\<exists>a\<in>set (assets m). asset_name a = assetPrefix p) \<longrightarrow>
      (\<exists>a. resolveAsset p m = Some a \<and> a \<in> set (assets m) \<and> asset_name a = assetPrefix p)) \<and>
   (\<not> (\<exists>a\<in>set (assets m). asset_name a = assetPrefix p @ lit ''.gz'') \<and>
    \<not> (\<exists>a\<in>set (assets m). asset_name a = assetPrefix p) \<longrightarrow>
      resolveAsset p m = None \<and>
      downloadModFiles p en spinner m w =
        Some (Inl (Error (lit ''No suitable asset found in release'')), w)) \<and>
   assetPrefix p = (case patchType (opts p) of Default \<Rightarrow> lit ''app.asar''
                    | DevtoolsOnly \<Rightarrow> lit ''appDevTools.asar'')"
proof (intro conjI impI)
  assume "\<exists>a\<in>set (assets m). asset_name a = assetPrefix p @ lit ''.gz''"
  then obtain a where "find (\<lambda>a. asset_name a = assetPrefix p @ lit ''.gz'') (assets m) = Some a"
    by (cases "find (\<lambda>a. asset_name a = assetPrefix p @ lit ''.gz'') (assets m)")
       (auto simp: find_None_iff)
  then show "\<exists>a. resolveAsset p m = Some a \<and> a \<in> set (assets m) \<and>
           asset_name a = assetPrefix p @ lit ''.gz''"
    using find_SomeD by (fastforce simp: resolveAsset_def)
next
  assume h: "\<not> (\<exists>a\<in>set (assets m). asset_name a = assetPrefix p @ lit ''.gz'') \<and>
    (\<exists>a\<in>set (assets m). asset_name a = assetPrefix p)"
  then have n: "find (\<lambda>a. asset_name a = assetPrefix p @ lit ''.gz'') (assets m) = None"
    by (simp add: find_None_iff)
  from h obtain a where "find (\<lambda>a. asset_name a = assetPrefix p) (assets m) = Some a"
    by (cases "find (\<lambda>a. asset_name a = assetPrefix p) (assets m)") (auto simp: find_None_iff)
  then show "\<exists>a. resolveAsset p m = Some a \<and> a \<in> set (assets m) \<and> asset_name a = assetPrefix p"
    using n find_SomeD by (fastforce simp: resolveAsset_def)
next
  assume h: "\<not> (\<exists>a\<in>set (assets m). asset_name a = assetPrefix p @ lit ''.gz'') \<and>
    \<not> (\<exists>a\<in>set (assets m). asset_name a = assetPrefix p)"
  then have "find (\<lambda>a. asset_name a = assetPrefix p @ lit ''.gz'') (assets m) = None"
    "find (\<lambda>a. asset_name a = assetPrefix p) (assets m) = None"
    by (simp_all add: find_None_iff)
  then have n: "resolveAsset p m = None"
    by (simp add: resolveAsset_def)
  show "resolveAsset p m = None" by (rule n)
  show "downloadModFiles p en spinner m w =
        Some (Inl (Error (lit ''No suitable asset found in release'')), w)"
    using n by (simp add: downloadModFiles_def io_throw_def)
next
  show "assetPrefix p = (case patchType (opts p) of Default \<Rightarrow> lit ''app.asar''
                    | DevtoolsOnly \<Rightarrow> lit ''appDevTools.asar'')"
    by (simp add: assetPrefix_def split: patch_type.splits)
qed

theorem resolveAsset_prefers_gz_witness:
  "resolveAsset demo_patcher (demo_release [demo_asset_plain, demo_asset_gz]) = Some demo_asset_gz \<and>
   resolveAsset demo_patcher (demo_release [demo_asset_plain]) = Some demo_asset_plain \<and>
   resolveAsset demo_devtools_patcher (demo_release [demo_asset_plain, demo_asset_devtools])
     = Some demo_asset_devtools \<and>
   resolveAsset demo_patcher (demo_release [demo_asset_devtools]) = None \<and>
   downloadModFiles demo_patcher demo_env False (demo_release [demo_asset_devtools]) demo_world
     = Some (Inl (Error (lit ''No suitable asset found in release'')), demo_world)"
proof -
  have a: "resolveAsset demo_patcher (demo_release [demo_asset_plain, demo_asset_gz]) = Some demo_asset_gz"
    and b: "resolveAsset demo_patcher (demo_release [demo_asset_plain]) = Some demo_asset_plain"
    and c: "resolveAsset demo_devtools_patcher (demo_release [demo_asset_plain, demo_asset_devtools])
              = Some demo_asset_devtools"
    by (simp_all add: resolveAsset_def assetPrefix_def demo_patcher_def demo_devtools_patcher_def
        demo_options_def demo_release_def demo_asset_plain_def demo_asset_gz_def
        demo_asset_devtools_def lit_def)
  have n1: "\<not> (\<exists>a\<in>set (assets (demo_release [demo_asset_devtools])).
              asset_name a = assetPrefix demo_patcher @ lit ''.gz'')"
    and n2: "\<not> (\<exists>a\<in>set (assets (demo_release [demo_asset_devtools])).
              asset_name a = assetPrefix demo_patcher)"
    by (simp_all add: assetPrefix_def demo_patcher_def demo_options_def demo_release_def
        demo_asset_devtools_def lit_def)
  from resolveAsset_prefers_gz[of "demo_release [demo_asset_devtools]" demo_patcher demo_env False demo_world]
    n1 n2
  have "resolveAsset demo_patcher (demo_release [demo_asset_devtools]) = None \<and>
        downloadModFiles demo_patcher demo_env False (demo_release [demo_asset_devtools]) demo_world
          = Some (Inl (Error (lit ''No suitable asset found in release'')), demo_world)"
    by blast
  then show ?thesis using a b c by simp
qed

section \<open>The cache\<close>

lemma path_join_two:
  "b \<noteq> [] \<Longrightarrow> path_join [t, b] = (if t = [] then b else t @ [slash] @ b)"
  by (simp add: path_join_def)

lemma path_join_two_inj:
  "a \<noteq> [] \<Longrightarrow> b \<noteq> [] \<Longrightarrow> path_join [t, a] = path_join [t, b] \<longleftrightarrow> a = b"
  by (simp add: path_join_two)

lemma gz_name_not_working_file:
  assumes "endsWith n (lit ''.gz'')"
  shows "path_join [t, n] \<noteq> path_join [t, lit ''app.asar'']"
proof -
  from assms obtain x where n: "n = x @ lit ''.gz''" by (auto simp: endsWith_def suffix_def)
  then have "n \<noteq> []" by (simp add: lit_def)
  moreover have "lit ''app.asar'' \<noteq> []" by (simp add: lit_def)
  moreover have "n \<noteq> lit ''app.asar''" 
  proof
    assume "n = lit ''app.asar''"
    then have "last n = last (lit ''app.asar'')" by simp
    then show False using n by (simp add: lit_def)
  qed
  ultimately show ?thesis by (simp add: path_join_two_inj)
qed

text \<open>
  C6. With caching enabled and a file of the asset's name in the temp directory: when
  its size equals the asset's declared size, \<open>downloadModFiles\<close> sends no request and
  uses the cached file, decompressing it into \<open>app.asar\<close> when the name ends in
  \<open>.gz\<close> (a failing decompression is the only error) and touching nothing otherwise;
  when the size differs, it sends exactly one request for the asset and, once the stream
  has arrived, the file of the asset's name holds the streamed bytes.
\<close>

theorem cache_hit_skips_download:
  assumes a: "resolveAsset p m = Some a" and uc: "useCache (opts p)"
    and c: "map_of (files w) (path_join [tmpDir p, asset_name a]) = Some c"
  shows "(int (length c) = asset_size a \<longrightarrow>
           (\<exists>res w'. downloadModFiles p en spinner m w = Some (res, w') \<and>
              network_calls w' = network_calls w \<and>
              (if endsWith (asset_name a) (lit ''.gz'') then
                 (case unzip en c of
                    None \<Rightarrow> res = Inl (LibraryError (lit ''zlib'')) \<and> w' = w
                  | Some d \<Rightarrow>
                      res = Inr () \<and>
                      map_of (files w') (path_join [tmpDir p, lit ''app.asar'']) = Some d \<and>
                      map_of (files w') (path_join [tmpDir p, asset_name a]) = Some c)
               else res = Inr () \<and> w' = w))) \<and>
         (int (length c) \<noteq> asset_size a \<longrightarrow>
           (\<exists>res w'. downloadModFiles p en spinner m w = Some (res, w') \<and>
              network_calls w' = network_calls w @ [HttpGet (browser_download_url a)] \<and>
              (case downloadStream en (browser_download_url a) of
                 Inl e \<Rightarrow> res = Inl e \<and> files w' = files w
               | Inr data \<Rightarrow> map_of (files w') (path_join [tmpDir p, asset_name a]) = Some data)))"
proof (intro conjI impI)
  assume size: "int (length c) = asset_size a"
  show "\<exists>res w'. downloadModFiles p en spinner m w = Some (res, w') \<and>
              network_calls w' = network_calls w \<and>
              (if endsWith (asset_name a) (lit ''.gz'') then
                 (case unzip en c of
                    None \<Rightarrow> res = Inl (LibraryError (lit ''zlib'')) \<and> w' = w
                  | Some d \<Rightarrow>
                      res = Inr () \<and>
                      map_of (files w') (path_join [tmpDir p, lit ''app.asar'']) = Some d \<and>
                      map_of (files w') (path_join [tmpDir p, asset_name a]) = Some c)
               else res = Inr () \<and> w' = w)"
  proof (cases "endsWith (asset_name a) (lit ''.gz'')")
    case True
    note ne = gz_name_not_working_file[OF True, of "tmpDir p"]
    show ?thesis
      using a uc c size True ne
      by (cases "unzip en c")
         (auto simp: downloadModFiles_def io_bind_def existsSync_def stat_size_def readFile_def
           io_return_def io_throw_def decompressFile_def writeFile_def network_calls_def
           update_conv' Let_def)
  next
    case False
    then show ?thesis
      using a uc c size
      by (auto simp: downloadModFiles_def io_bind_def existsSync_def stat_size_def readFile_def
           io_return_def Let_def)
  qed
next
  assume size: "int (length c) \<noteq> asset_size a"
  have dm: "downloadModFiles p en spinner m w = download_asset p en spinner a w"
    using a uc c size
    by (auto simp: downloadModFiles_def io_bind_def existsSync_def stat_size_def readFile_def
           io_return_def Let_def)
  show "\<exists>res w'. downloadModFiles p en spinner m w = Some (res, w') \<and>
              network_calls w' = network_calls w @ [HttpGet (browser_download_url a)] \<and>
              (case downloadStream en (browser_download_url a) of
                 Inl e \<Rightarrow> res = Inl e \<and> files w' = files w
               | Inr data \<Rightarrow> map_of (files w') (path_join [tmpDir p, asset_name a]) = Some data)"
  proof (cases "endsWith (asset_name a) (lit ''.gz'')")
    case True
    note ne = gz_name_not_working_file[OF True, of "tmpDir p"]
    show ?thesis
      unfolding dm using True ne
      by (cases "downloadStream en (browser_download_url a)"; cases spinner)
         (auto simp: download_asset_def io_bind_def io_seq_def emit_def io_throw_def io_return_def
           writeFile_def decompressFile_def readFile_def updateStatus_def network_calls_def
           update_conv' Let_def split: option.splits)
  next
    case False
    show ?thesis
      unfolding dm using False
      by (cases "downloadStream en (browser_download_url a)")
         (auto simp: download_asset_def io_bind_def io_seq_def emit_def io_throw_def io_return_def
           writeFile_def network_calls_def update_conv' Let_def)
  qed
qed

theorem cache_hit_skips_download_witness:
  "resolveAsset demo_patcher (demo_release [demo_asset_gz]) = Some demo_asset_gz \<and>
   useCache (opts demo_patcher) \<and>
   map_of (files demo_cached_world) (path_join [tmpDir demo_patcher, asset_name demo_asset_gz])
     = Some [0x1F, 0x8B, 0x78, 0x79] \<and>
   int (length [0x1F, 0x8B, 0x78, 0x79 :: byte]) = asset_size demo_asset_gz \<and>
   (\<exists>w'. downloadModFiles demo_patcher demo_env False (demo_release [demo_asset_gz]) demo_cached_world
            = Some (Inr (), w') \<and>
         (network_calls w', map_of (files w') (demo_tmp ''app.asar'')) = ([], Some [0x78, 0x79])) \<and>
   map_of (files demo_truncated_world) (path_join [tmpDir demo_patcher, asset_name demo_asset_gz])
     = Some [0x1F] \<and>
   (\<exists>w'. downloadModFiles demo_patcher demo_env False (demo_release [demo_asset_gz]) demo_truncated_world
            = Some (Inr (), w') \<and>
         (network_calls w', map_of (files w') (demo_tmp ''app.asar.gz''),
            map_of (files w') (demo_tmp ''app.asar''))
         = ([HttpGet (lit ''https://example.org/app.asar.gz'')], Some [0x1F, 0x8B, 0x78, 0x79],
            Some [0x78, 0x79]))"
proof -
  have a: "resolveAsset demo_patcher (demo_release [demo_asset_gz]) = Some demo_asset_gz"
    by code_simp
  have u: "useCache (opts demo_patcher)" by (simp add: demo_patcher_def demo_options_def)
  have c1: "map_of (files demo_cached_world) (path_join [tmpDir demo_patcher, asset_name demo_asset_gz])
     = Some [0x1F, 0x8B, 0x78, 0x79]" by code_simp
  have c2: "map_of (files demo_truncated_world) (path_join [tmpDir demo_patcher, asset_name demo_asset_gz])
     = Some [0x1F]" by code_simp
  have s: "int (length [0x1F, 0x8B, 0x78, 0x79 :: byte]) = asset_size demo_asset_gz"
    by (simp add: demo_asset_gz_def)
  have "observe (\<lambda>w'. (network_calls w', map_of (files w') (demo_tmp ''app.asar'')))
          (downloadModFiles demo_patcher demo_env False (demo_release [demo_asset_gz])) demo_cached_world
        = Some (Inr (), [], Some [0x78, 0x79])"
    by code_simp
  from run_result[OF this]
  have hit: "\<exists>w'. downloadModFiles demo_patcher demo_env False (demo_release [demo_asset_gz]) demo_cached_world
            = Some (Inr (), w') \<and>
         (network_calls w', map_of (files w') (demo_tmp ''app.asar'')) = ([], Some [0x78, 0x79])" .
  have "observe (\<lambda>w'. (network_calls w', map_of (files w') (demo_tmp ''app.asar.gz''),
            map_of (files w') (demo_tmp ''app.asar'')))
          (downloadModFiles demo_patcher demo_env False (demo_release [demo_asset_gz])) demo_truncated_world
        = Some (Inr (), [HttpGet (lit ''https://example.org/app.asar.gz'')],
                Some [0x1F, 0x8B, 0x78, 0x79], Some [0x78, 0x79])"
    by code_simp
  from run_result[OF this]
  have miss: "\<exists>w'. downloadModFiles demo_patcher demo_env False (demo_release [demo_asset_gz]) demo_truncated_world
            = Some (Inr (), w') \<and>
         (network_calls w', map_of (files w') (demo_tmp ''app.asar.gz''),
            map_of (files w') (demo_tmp ''app.asar''))
         = ([HttpGet (lit ''https://example.org/app.asar.gz'')], Some [0x1F, 0x8B, 0x78, 0x79],
            Some [0x78, 0x79])" .
  show ?thesis
    using cache_hit_skips_download[OF a u c1, of demo_env False] a u c1 c2 s hit miss
    by blast
qed

section \<open>The working file of a developer-tools patch\<close>

text \<open>
  When the asset is fetched (no cache, or no cached file) and the stream arrives, the
  working file \<open>app.asar\<close> that \<open>replaceAsar\<close> installs holds the decompressed
  content of a compressed asset, and the content of the uncompressed asset \<open>app.asar\<close>.
\<close>

lemma download_fills_working_file:
  assumes a: "resolveAsset p m = Some a"
    and fresh: "\<not> useCache (opts p) \<or> map_of (files w) (path_join [tmpDir p, asset_name a]) = None"
    and data: "downloadStream en (browser_download_url a) = Inr data"
  shows "(endsWith (asset_name a) (lit ''.gz'') \<longrightarrow>
            (\<forall>d. unzip en data = Some d \<longrightarrow>
               (\<exists>w'. downloadModFiles p en spinner m w = Some (Inr (), w') \<and>
                     map_of (files w') (path_join [tmpDir p, lit ''app.asar'']) = Some d))) \<and>
         (asset_name a = lit ''app.asar'' \<longrightarrow>
            (\<exists>w'. downloadModFiles p en spinner m w = Some (Inr (), w') \<and>
                  map_of (files w') (path_join [tmpDir p, lit ''app.asar'']) = Some data))"
proof -
  have dm: "downloadModFiles p en spinner m w = download_asset p en spinner a w"
    using a fresh
    by (auto simp: downloadModFiles_def io_bind_def existsSync_def Let_def)
  have plain: "\<not> endsWith (lit ''app.asar'') (lit ''.gz'')"
    by (simp add: endsWith_def lit_def suffix_to_prefix)
  show ?thesis
    unfolding dm using data plain
    by (cases spinner)
       (auto simp: download_asset_def io_bind_def io_seq_def emit_def io_return_def io_throw_def
         writeFile_def decompressFile_def readFile_def updateStatus_def update_conv' Let_def)
qed

text \<open>
  C5 fails on the code for one of its four cases. An uncompressed asset is written to
  the file of its own name, and only a compressed one is unpacked into \<open>app.asar\<close>,
  the file \<open>replaceAsar\<close> installs. For the developer-tools variant with the
  uncompressed asset \<open>appDevTools.asar\<close> the two differ: with a stale \<open>app.asar\<close>
  in the temp directory the run succeeds and installs the stale bytes \<open>99\<close> instead of
  the asset's \<open>xy\<close>; without one the replacement fails and the archive stays as it was.
\<close>

theorem devtools_uncompressed_asset_not_installed:
  "(\<exists>w'. patch demo_devtools_patcher demo_devtools_env False demo_stale_world = Some (Inr (), w') \<and>
         (map_of (files w') (demo_tmp ''appDevTools.asar''), map_of (files w') (demo_tmp ''app.asar''),
          map_of (files w') (ymAsarPath demo_devtools_patcher))
         = (Some [0x78, 0x79], Some [0x39, 0x39], Some [0x39, 0x39])) \<and>
   (\<exists>w'. patch demo_devtools_patcher demo_devtools_env False demo_world
            = Some (Inl (FsError (demo_tmp ''app.asar'')), w') \<and>
         (map_of (files w') (demo_tmp ''appDevTools.asar''), map_of (files w') (demo_tmp ''app.asar''),
          map_of (files w') (ymAsarPath demo_devtools_patcher))
         = (Some [0x78, 0x79], None, Some [0x61, 0x62]))"
proof -
  have "observe (\<lambda>w'. (map_of (files w') (demo_tmp ''appDevTools.asar''),
            map_of (files w') (demo_tmp ''app.asar''),
            map_of (files w') (ymAsarPath demo_devtools_patcher)))
          (patch demo_devtools_patcher demo_devtools_env False) demo_stale_world
        = Some (Inr (), Some [0x78, 0x79], Some [0x39, 0x39], Some [0x39, 0x39])"
    by code_simp
  note a = run_result[OF this]
  have "observe (\<lambda>w'. (map_of (files w') (demo_tmp ''appDevTools.asar''),
            map_of (files w') (demo_tmp ''app.asar''),
            map_of (files w') (ymAsarPath demo_devtools_patcher)))
          (patch demo_devtools_patcher demo_devtools_env False) demo_world
        = Some (Inl (FsError (demo_tmp ''app.asar'')), Some [0x78, 0x79], None, Some [0x61, 0x62])"
    by code_simp
  note b = run_result[OF this]
  show ?thesis using a b by blast
qed

section \<open>Listing processes and the process gate\<close>

text \<open>
  The rounding of \<open>to_double\<close>: an integer below \<open>2^53\<close> is kept as it is, and from
  \<open>2^1024\<close> on the result is an infinity.
\<close>

lemma bit_width_le: "n < 2 ^ k \<Longrightarrow> bit_width n \<le> k"
proof (induction k arbitrary: n)
  case 0
  then show ?case by (simp add: bit_width.simps)
next
  case (Suc k)
  show ?case
  proof (cases "n \<le> 0")
    case True
    then show ?thesis by (simp add: bit_width.simps)
  next
    case False
    from Suc.prems have "n div 2 < 2 ^ k" by simp
    then have "bit_width (n div 2) \<le> k" by (rule Suc.IH)
    with False show ?thesis by (subst bit_width.simps) simp
  qed
qed

lemma bit_width_gt: "2 ^ k \<le> n \<Longrightarrow> k < bit_width n"
proof (induction k arbitrary: n)
  case 0
  then show ?case by (subst bit_width.simps) simp
next
  case (Suc k)
  then have "2 ^ k \<le> n div 2" by simp
  then have "k < bit_width (n div 2)" by (rule Suc.IH)
  moreover have "(0::int) < 2 ^ Suc k" by simp
  with Suc.prems have "0 < n" by linarith
  ultimately show ?case by (subst bit_width.simps) simp
qed

lemma bit_width_lower: "0 < n \<Longrightarrow> 2 ^ (bit_width n - 1) \<le> n"
proof (induction n rule: bit_width.induct)
  case (1 n)
  show ?case
  proof (cases "n div 2 \<le> 0")
    case True
    with 1 have "bit_width (n div 2) = 0" by (simp add: bit_width.simps)
    with 1 show ?thesis by (subst bit_width.simps) simp
  next
    case False
    with 1 have ih: "2 ^ (bit_width (n div 2) - 1) \<le> n div 2" by simp
    from False have "0 < bit_width (n div 2)" by (subst bit_width.simps) simp
    then have "(2::int) ^ bit_width (n div 2) = 2 * 2 ^ (bit_width (n div 2) - 1)"
      by (cases "bit_width (n div 2)") simp_all
    with ih have "2 ^ bit_width (n div 2) \<le> n" by simp
    with 1 show ?thesis by (subst bit_width.simps) simp
  qed
qed

lemma to_double_exact: "n < 2 ^ 53 \<Longrightarrow> to_double n = Some n"
proof -
  assume "n < 2 ^ 53"
  then have "bit_width n \<le> 53" by (rule bit_width_le)
  then show ?thesis by (simp add: to_double_def Let_def)
qed

lemma to_double_overflow:
  assumes "2 ^ 1024 \<le> n"
  shows "to_double n = None"
proof -
  define b where "b = bit_width n"
  define e where "e = b - 53"
  have b: "1024 < b" unfolding b_def using assms by (rule bit_width_gt)
  have "(0::int) < 2 ^ 1024" by simp
  with assms have pos: "0 < n" by linarith
  have "2 ^ (b - 1) \<le> n" unfolding b_def using pos by (rule bit_width_lower)
  moreover have "b - 1 = 52 + e"
    using b by (simp add: e_def)
  then have "(2::int) ^ (b - 1) = 2 ^ 52 * 2 ^ e"
    by (simp only: power_add)
  ultimately have "2 ^ 52 * 2 ^ e \<le> n" by simp
  then have "(2 ^ 52 * 2 ^ e) div 2 ^ e \<le> n div 2 ^ e"
    by (rule zdiv_mono1) simp
  then have q: "2 ^ 52 \<le> n div 2 ^ e" by simp
  have m: "52 < bit_width m" if "n div 2 ^ e \<le> m" for m
    using q that by (intro bit_width_gt) simp
  have k: "1024 < bit_width m + e" if "n div 2 ^ e \<le> m" for m
    using m[OF that] b by (simp add: e_def)
  have "1024 < bit_width (n div 2 ^ e) + e" "1024 < bit_width (n div 2 ^ e + 1) + e"
    by (rule k, simp)+
  then show ?thesis
    using b by (auto simp add: to_double_def Let_def simp flip: b_def e_def)
qed













text \<open>
  C4. When running instances are found and \<open>force\<close> is off, \<open>patch\<close> fails and the
  file system is exactly as before. When the install check passed, which is when the
  instances were looked for, the error is \<open>Yandex Music is running...\<close> (the spec's
  ProcessRunningError) and the only effect is the status line; otherwise the install
  check has already failed the run with no effect at all.
\<close>

theorem patch_refuses_running_instance:
  assumes running: "getYandexMusicProcesses p en \<noteq> []" and nf: "\<not> force (opts p)"
  shows "\<exists>e w'. patch p en spinner w = Some (Inl e, w') \<and> files w' = files w \<and>
           (if map_of (files w) (ymAsarPath p) \<noteq> None \<and> access_rw en (ymAsarPath p)
            then e = Error (lit ''Yandex Music is running. Please close it or use --force to kill it.'')
                 \<and> events w' = events w @ [Status (lit ''Checking process status...'')]
            else w' = w)"
  using assms
  by (auto simp: patch_def checkInstallPossible_def io_bind_def io_seq_def existsSync_def
      io_return_def io_throw_def updateStatus_def emit_def Let_def)

theorem patch_refuses_running_instance_witness:
  "getYandexMusicProcesses demo_patcher demo_env_running = [Num 1234] \<and>
   \<not> force (opts demo_patcher) \<and>
   (\<exists>w'. patch demo_patcher demo_env_running False demo_world =
           Some (Inl (Error (lit ''Yandex Music is running. Please close it or use --force to kill it.'')), w')
         \<and> files w' = files demo_world
         \<and> events w' = [Status (lit ''Checking process status...'')])"
proof -
  have r: "getYandexMusicProcesses demo_patcher demo_env_running = [Num 1234]" by code_simp
  have f: "\<not> force (opts demo_patcher)" by (simp add: demo_patcher_def demo_options_def)
  have c: "map_of (files demo_world) (ymAsarPath demo_patcher) \<noteq> None \<and>
           access_rw demo_env_running (ymAsarPath demo_patcher)"
    by (simp add: demo_world_def demo_patcher_def demo_asar_def demo_env_running_def demo_env_def)
  have e: "events demo_world = []" by (simp add: demo_world_def)
  from patch_refuses_running_instance[of demo_patcher demo_env_running False demo_world] r f c e
  show ?thesis by auto
qed

section \<open>The backup comes before the replacement\<close>

lemma spares_return [spares_intros]: "spares x (io_return v)"
  by (simp add: spares_def io_return_def)

lemma spares_throw [spares_intros]: "spares x (io_throw e)"
  by (simp add: spares_def io_throw_def)

lemma spares_bind [spares_intros]:
  assumes "spares x m" "\<And>v. spares x (f v)"
  shows "spares x (io_bind m f)"
  unfolding spares_def
proof (intro allI impI)
  fix w r w' assume run: "io_bind m f w = Some (r, w')"
  then obtain r1 w1 where m: "m w = Some (r1, w1)"
    by (auto simp: io_bind_def split: option.splits)
  from assms(1) m obtain ev1 where
    e1: "events w1 = events w @ ev1" "\<forall>e\<in>set ev1. e \<noteq> applying \<and> \<not> writes e x"
    and f1: "map_of (files w1) x = map_of (files w) x"
    unfolding spares_def by blast
  show "(\<exists>ev. events w' = events w @ ev \<and> (\<forall>e\<in>set ev. e \<noteq> applying \<and> \<not> writes e x)) \<and>
        map_of (files w') x = map_of (files w) x"
  proof (cases r1)
    case (Inl e)
    with run m have "w' = w1" by (simp add: io_bind_def)
    then show ?thesis using e1 f1 by blast
  next
    case (Inr v)
    with run m have "f v w1 = Some (r, w')" by (simp add: io_bind_def)
    with assms(2)[of v] obtain ev2 where
      "events w' = events w1 @ ev2" "\<forall>e\<in>set ev2. e \<noteq> applying \<and> \<not> writes e x"
      "map_of (files w') x = map_of (files w1) x"
      unfolding spares_def by blast
    then have "events w' = events w @ (ev1 @ ev2)"
      "\<forall>e\<in>set (ev1 @ ev2). e \<noteq> applying \<and> \<not> writes e x"
      "map_of (files w') x = map_of (files w) x"
      using e1 f1 by auto
    then show ?thesis by blast
  qed
qed

lemma spares_seq [spares_intros]: "spares x m \<Longrightarrow> spares x n \<Longrightarrow> spares x (io_seq m n)"
  by (simp add: io_seq_def spares_bind)

lemma spares_if [spares_intros]:
  "(c \<Longrightarrow> spares x a) \<Longrightarrow> (\<not> c \<Longrightarrow> spares x b) \<Longrightarrow> spares x (if c then a else b)"
  by simp

lemma spares_case_option [spares_intros]:
  "(v = None \<Longrightarrow> spares x a) \<Longrightarrow> (\<And>y. v = Some y \<Longrightarrow> spares x (b y)) \<Longrightarrow>
   spares x (case v of None \<Rightarrow> a | Some y \<Rightarrow> b y)"
  by (cases v) simp_all

lemma spares_case_sum [spares_intros]:
  "(\<And>y. v = Inl y \<Longrightarrow> spares x (a y)) \<Longrightarrow> (\<And>y. v = Inr y \<Longrightarrow> spares x (b y)) \<Longrightarrow>
   spares x (case v of Inl y \<Rightarrow> a y | Inr y \<Rightarrow> b y)"
  by (cases v) simp_all

lemma spares_emit:
  "e \<noteq> applying \<Longrightarrow> \<not> writes e x \<Longrightarrow> spares x (emit e)"
  by (simp add: spares_def emit_def)

lemma spares_existsSync [spares_intros]: "spares x (existsSync path)"
  by (simp add: spares_def existsSync_def)

lemma spares_readFile [spares_intros]: "spares x (readFile path)"
  by (auto simp: spares_def readFile_def split: option.splits)

lemma spares_stat_size [spares_intros]: "spares x (stat_size path)"
  by (simp add: stat_size_def spares_intros)

lemma spares_readdir [spares_intros]: "spares x (readdir path)"
  by (simp add: spares_def readdir_def)

lemma spares_writeFile: "dest \<noteq> x \<Longrightarrow> spares x (writeFile dest content)"
  by (simp add: spares_def writeFile_def applying_def update_conv')

lemma spares_copyFile: "dest \<noteq> x \<Longrightarrow> spares x (copyFile src dest)"
  by (auto simp: spares_def copyFile_def applying_def update_conv' split: option.splits)

lemma spares_unlink: "dest \<noteq> x \<Longrightarrow> spares x (unlink dest)"
  by (auto simp: spares_def unlink_def applying_def delete_conv' split: option.splits)

lemma spares_updateStatus:
  "text \<noteq> lit ''Applying patch...'' \<Longrightarrow> spares x (updateStatus text)"
  by (simp add: updateStatus_def spares_emit applying_def)

lemma spares_killProcesses [spares_intros]: "spares x (killProcesses pids)"
  by (induction pids) (simp_all add: spares_intros spares_emit applying_def)

lemma spares_checkInstallPossible [spares_intros]: "spares x (checkInstallPossible p en)"
  by (simp add: checkInstallPossible_def spares_intros)

lemma spares_calculateAsarHeaderHash [spares_intros]:
  "spares x (calculateAsarHeaderHash en path)"
  unfolding calculateAsarHeaderHash_def by (intro spares_intros)

lemma spares_fetchRelease [spares_intros]: "spares x (fetchRelease en)"
  unfolding fetchRelease_def
  by (intro spares_intros spares_emit) (simp_all add: applying_def)

lemma spares_decompressFile:
  "dest \<noteq> x \<Longrightarrow> spares x (decompressFile en source dest)"
  unfolding decompressFile_def by (intro spares_intros spares_writeFile)

lemma spares_launch [spares_intros]: "spares x (launchYandexMusic p en)"
  unfolding launchYandexMusic_def Let_def
  by (intro spares_intros spares_emit) (simp_all add: applying_def)

lemma spares_bypassIntegrityMac [spares_intros]: "spares x (bypassIntegrityMac p en)"
  unfolding bypassIntegrityMac_def Let_def
  by (intro spares_intros spares_emit) (simp_all add: applying_def)

lemma path_join_nonempty: "path_join segs \<noteq> []"
  by (simp add: path_join_def Let_def lit_def)

lemma Patcher_new_paths_ok:
  assumes "Patcher_new plat homeDir localAppData configCustomPath raw = Inr p"
  shows "paths_ok p"
proof -
  from assms obtain ym where
    asar: "resolveAsarPath plat ym = Inr (ymAsarPath p)"
    and exe: "ymExePath p = resolveExePath plat ym"
    and tmp: "tmpDir p = path_join [path_join [homeDir, lit ''.ymmp-cache''], lit ''temp'']"
    by (auto simp: Patcher_new_def Let_def split: sum.splits if_splits)
  have a: "\<exists>y. ymAsarPath p = y @ lit ''s/app.asar''"
  proof -
    let ?x = "if ym = [] then [] else ym @ [slash]"
    have d: "?x @ lit ''Contents/Resources/app.asar'' = (?x @ lit ''Contents/Resource'') @ lit ''s/app.asar''"
      and w: "?x @ lit ''resources/app.asar'' = (?x @ lit ''resource'') @ lit ''s/app.asar''"
      by (simp_all add: lit_def)
    from asar have "ymAsarPath p = ?x @ lit ''Contents/Resources/app.asar'' \<or>
        ymAsarPath p = ?x @ lit ''resources/app.asar''"
      by (cases plat) (auto simp: resolveAsarPath_def path_join_def lit_def slash_def)
    then show ?thesis using d w by metis
  qed
  have "path_join [homeDir, lit ''.ymmp-cache''] \<noteq> []" by (rule path_join_nonempty)
  then have t: "tmpDir p = path_join [homeDir, lit ''.ymmp-cache''] @ lit ''/temp''"
    using tmp by (simp add: path_join_two lit_def slash_def)
  have e: "\<exists>x. e = x @ lit ''.exe''" if "ymExePath p = Some e" for e
  proof -
    from that exe have "e = path_join [ym, ym_name @ lit ''.exe'']"
      by (auto simp: resolveExePath_def split: if_splits)
    then have "e = (if ym = [] then ym_name else ym @ [slash] @ ym_name) @ lit ''.exe''"
      by (simp add: path_join_two lit_def)
    then show ?thesis by blast
  qed
  show ?thesis unfolding paths_ok_def using a t e by blast
qed

lemma suffix_clash: "x @ s = y @ t \<Longrightarrow> length s = length t \<Longrightarrow> s = t"
  by simp

lemma backupPath_eq:
  assumes "paths_ok p"
  shows "backupPath p = tmpDir p @ lit ''/app.asar.backup''"
proof -
  from assms obtain c where "tmpDir p = c @ lit ''/temp''" by (auto simp: paths_ok_def)
  then have "tmpDir p \<noteq> []" by (simp add: lit_def)
  then show ?thesis by (simp add: backupPath_def path_join_two lit_def slash_def)
qed

lemma asar_neq_backup:
  assumes "paths_ok p"
  shows "ymAsarPath p \<noteq> backupPath p"
proof
  assume e: "ymAsarPath p = backupPath p"
  from assms obtain y where y: "ymAsarPath p = y @ lit ''s/app.asar''" by (auto simp: paths_ok_def)
  have "(y @ lit ''s/app.asa'') @ lit ''r'' = (tmpDir p @ lit ''/app.asar.backu'') @ lit ''p''"
    using e y backupPath_eq[OF assms] by (simp add: lit_def)
  from suffix_clash[OF this] show False by (simp add: lit_def)
qed

lemma exe_neq_backup:
  assumes "paths_ok p" "ymExePath p = Some exe"
  shows "exe \<noteq> backupPath p" "exe @ lit ''.backup'' \<noteq> backupPath p"
proof -
  from assms obtain x where x: "exe = x @ lit ''.exe''" by (auto simp: paths_ok_def)
  show "exe \<noteq> backupPath p"
  proof
    assume "exe = backupPath p"
    then have "(x @ lit ''.ex'') @ lit ''e'' = (tmpDir p @ lit ''/app.asar.backu'') @ lit ''p''"
      using x backupPath_eq[OF assms(1)] by (simp add: lit_def)
    from suffix_clash[OF this] show False by (simp add: lit_def)
  qed
  show "exe @ lit ''.backup'' \<noteq> backupPath p"
  proof
    assume "exe @ lit ''.backup'' = backupPath p"
    then have "(x @ lit ''.ex'') @ lit ''e.backup'' = (tmpDir p @ lit ''/app.asa'') @ lit ''r.backup''"
      using x backupPath_eq[OF assms(1)] by (simp add: lit_def)
    from suffix_clash[OF this] show False by (simp add: lit_def)
  qed
qed

lemma tmp_file_neq_asar:
  assumes ok: "paths_ok p"
    and n: "n \<in> {lit ''app.asar'', lit ''app.asar.gz'', lit ''appDevTools.asar'', lit ''appDevTools.asar.gz''}"
  shows "path_join [tmpDir p, n] \<noteq> ymAsarPath p"
proof
  assume e: "path_join [tmpDir p, n] = ymAsarPath p"
  from ok obtain y where y: "ymAsarPath p = y @ lit ''s/app.asar''" by (auto simp: paths_ok_def)
  from ok obtain c where c: "tmpDir p = c @ lit ''/temp''" by (auto simp: paths_ok_def)
  then have ne: "tmpDir p \<noteq> []" by (simp add: lit_def)
  have nn: "n \<noteq> []" using n by (auto simp: lit_def)
  have j: "path_join [tmpDir p, n] = c @ lit ''/temp/'' @ n"
    using ne nn c by (simp add: path_join_two lit_def slash_def)
  from n consider "n = lit ''app.asar''" | "n = lit ''app.asar.gz''"
    | "n = lit ''appDevTools.asar''" | "n = lit ''appDevTools.asar.gz''" by auto
  then show False
  proof cases
    case 1
    then have "(c @ lit ''/tem'') @ lit ''p/app.asar'' = y @ lit ''s/app.asar''"
      using e j y by (simp add: lit_def)
    from suffix_clash[OF this] show False by (simp add: lit_def)
  next
    case 2
    then have "(c @ lit ''/temp/app.asar.g'') @ lit ''z'' = (y @ lit ''s/app.asa'') @ lit ''r''"
      using e j y by (simp add: lit_def)
    from suffix_clash[OF this] show False by (simp add: lit_def)
  next
    case 3
    then have "(c @ lit ''/temp/appDevT'') @ lit ''ools.asar'' = (y @ lit ''s'') @ lit ''/app.asar''"
      using e j y by (simp add: lit_def)
    from suffix_clash[OF this] show False by (simp add: lit_def)
  next
    case 4
    then have "(c @ lit ''/temp/appDevTools.asar.g'') @ lit ''z'' = (y @ lit ''s/app.asa'') @ lit ''r''"
      using e j y by (simp add: lit_def)
    from suffix_clash[OF this] show False by (simp add: lit_def)
  qed
qed

lemma resolveAsset_name:
  assumes "resolveAsset p m = Some a"
  shows "asset_name a \<in> {lit ''app.asar'', lit ''app.asar.gz'', lit ''appDevTools.asar'',
                          lit ''appDevTools.asar.gz''}"
proof -
  from assms have "asset_name a = assetPrefix p @ lit ''.gz'' \<or> asset_name a = assetPrefix p"
    using find_SomeD by (fastforce simp: resolveAsset_def split: option.splits)
  then show ?thesis by (auto simp: assetPrefix_def lit_def split: if_splits)
qed

lemma spares_downloadModFiles:
  assumes "paths_ok p"
  shows "spares (ymAsarPath p) (downloadModFiles p en spinner m)"
proof (cases "resolveAsset p m")
  case None
  then show ?thesis by (simp add: downloadModFiles_def spares_intros)
next
  case (Some a)
  note d1 = tmp_file_neq_asar[OF assms resolveAsset_name[OF Some]]
  have d2: "path_join [tmpDir p, lit ''app.asar''] \<noteq> ymAsarPath p"
    by (rule tmp_file_neq_asar[OF assms]) simp
  have dec: "lit ''Decompressing...'' \<noteq> lit ''Applying patch...''" by (simp add: lit_def)
  have dl: "spares (ymAsarPath p) (download_asset p en spinner a)"
    unfolding download_asset_def Let_def
    by (intro spares_intros spares_emit spares_writeFile spares_decompressFile spares_updateStatus
        d1 d2 dec) (simp_all add: applying_def)
  show ?thesis
    unfolding downloadModFiles_def Let_def Some option.case
    by (intro spares_intros spares_decompressFile d2 dl)
qed

lemma spares_replaceAsar:
  "paths_ok p \<Longrightarrow> spares (backupPath p) (replaceAsar p)"
  unfolding replaceAsar_def by (rule spares_copyFile) (rule asar_neq_backup)

lemma spares_bypassIntegrityWin:
  assumes "paths_ok p"
  shows "spares (backupPath p) (bypassIntegrityWin p oldHash newHash)"
proof (cases "ymExePath p")
  case None
  then show ?thesis by (simp add: bypassIntegrityWin_def spares_intros)
next
  case (Some exe)
  note d = exe_neq_backup[OF assms Some]
  show ?thesis
    unfolding spares_def
    using d Some
    by (auto simp: bypassIntegrityWin_unfold backed_up_def applying_def update_conv'
        split: option.splits if_splits)
qed

lemma spares_clear_entries:
  "spares (backupPath p) (clear_entries p False entries)"
proof (induction entries)
  case Nil
  then show ?case by (simp add: spares_intros)
next
  case (Cons entry rest)
  have "path_join [tmpDir p, entry] \<noteq> backupPath p" if "\<not> endsWith entry (lit ''.backup'')"
  proof
    assume e: "path_join [tmpDir p, entry] = backupPath p"
    have b: "lit ''app.asar.backup'' \<noteq> []" by (simp add: lit_def)
    show False
    proof (cases "entry = []")
      case True
      then show ?thesis using e by (auto simp: backupPath_def path_join_def lit_def slash_def split: if_splits)
    next
      case False
      with e b have "entry = lit ''app.asar.backup''"
        by (simp add: backupPath_def path_join_two_inj)
      then have "endsWith entry (lit ''.backup'')"
        by (simp add: endsWith_def suffix_def lit_def)
      with that show False by simp
    qed
  qed
  then show ?case
    using Cons.IH by (auto intro!: spares_intros spares_unlink)
qed

lemma spares_clearCaches: "spares (backupPath p) (clearCaches p False)"
  unfolding clearCaches_def by (intro spares_intros spares_clear_entries)

lemma triple_bind:
  assumes "triple P m Q F" "\<And>v. triple (Q v) (f v) R F"
  shows "triple P (io_bind m f) R F"
  unfolding triple_def
proof (intro allI impI)
  fix w r w' assume P: "P w" and run: "io_bind m f w = Some (r, w')"
  then obtain r1 w1 where m: "m w = Some (r1, w1)"
    by (auto simp: io_bind_def split: option.splits)
  show "case r of Inl e \<Rightarrow> F w' | Inr v \<Rightarrow> R v w'"
  proof (cases r1)
    case (Inl e)
    with run m have "r = Inl e" "w' = w1" by (simp_all add: io_bind_def)
    then show ?thesis using assms(1) P m Inl by (auto simp: triple_def)
  next
    case (Inr v)
    with run m have "f v w1 = Some (r, w')" by (simp add: io_bind_def)
    moreover have "Q v w1" using assms(1) P m Inr by (auto simp: triple_def)
    ultimately show ?thesis using assms(2)[of v] by (auto simp: triple_def)
  qed
qed

lemma triple_seq:
  "triple P m (\<lambda>_. Q) F \<Longrightarrow> triple Q n R F \<Longrightarrow> triple P (io_seq m n) R F"
  unfolding io_seq_def by (rule triple_bind)

lemma triple_throw: "(\<And>w. P w \<Longrightarrow> F w) \<Longrightarrow> triple P (io_throw e) Q F"
  by (simp add: triple_def io_throw_def)

lemma triple_if:
  "(c \<Longrightarrow> triple P a Q F) \<Longrightarrow> (\<not> c \<Longrightarrow> triple P b Q F) \<Longrightarrow> triple P (if c then a else b) Q F"
  by simp

lemma triple_weaken:
  assumes "triple P m Q F" "\<And>v w. Q v w \<Longrightarrow> Q' v w"
  shows "triple P m Q' F"
  unfolding triple_def
proof (intro allI impI)
  fix w r w' assume "P w" "m w = Some (r, w')"
  with assms(1) have "case r of Inl e \<Rightarrow> F w' | Inr v \<Rightarrow> Q v w'"
    unfolding triple_def by blast
  then show "case r of Inl e \<Rightarrow> F w' | Inr v \<Rightarrow> Q' v w'"
    using assms(2) by (cases r) simp_all
qed

lemma spares_before:
  assumes "spares (ymAsarPath p) m"
  shows "triple (before_backup p w0) m (\<lambda>_. before_backup p w0) (run_state p w0)"
proof -
  have step: "before_backup p w0 w'" if b: "before_backup p w0 w" and run: "m w = Some (r, w')" for w r w'
  proof -
    from assms run obtain ev2 where
      e2: "events w' = events w @ ev2" "\<forall>e\<in>set ev2. e \<noteq> applying \<and> \<not> writes e (ymAsarPath p)"
      and f2: "map_of (files w') (ymAsarPath p) = map_of (files w) (ymAsarPath p)"
      unfolding spares_def by blast
    from b obtain ev1 where
      e1: "events w = events w0 @ ev1" "\<forall>e\<in>set ev1. e \<noteq> applying \<and> \<not> writes e (ymAsarPath p)"
      and f1: "map_of (files w) (ymAsarPath p) = map_of (files w0) (ymAsarPath p)"
      unfolding before_backup_def by blast
    have "events w' = events w0 @ (ev1 @ ev2) \<and>
      (\<forall>e\<in>set (ev1 @ ev2). e \<noteq> applying \<and> \<not> writes e (ymAsarPath p))"
      using e1 e2 by auto
    then have "\<exists>ev. events w' = events w0 @ ev \<and>
      (\<forall>e\<in>set ev. e \<noteq> applying \<and> \<not> writes e (ymAsarPath p))" by (rule exI)
    then show ?thesis unfolding before_backup_def using f1 f2 by simp
  qed
  show ?thesis unfolding triple_def
  proof (intro allI impI)
    fix w r w' assume "before_backup p w0 w" "m w = Some (r, w')"
    then have "before_backup p w0 w'" by (rule step)
    then show "case r of Inl e \<Rightarrow> run_state p w0 w' | Inr v \<Rightarrow> before_backup p w0 w'"
      by (cases r) (simp_all add: run_state_def)
  qed
qed

lemma spares_after:
  assumes "spares (backupPath p) m"
  shows "triple (after_backup p w0) m (\<lambda>_. after_backup p w0) (run_state p w0)"
proof -
  have step: "after_backup p w0 w'" if b: "after_backup p w0 w" and run: "m w = Some (r, w')" for w r w'
  proof -
    from assms run obtain ev2 where
      e2: "events w' = events w @ ev2"
      and f2: "map_of (files w') (backupPath p) = map_of (files w) (backupPath p)"
      unfolding spares_def by blast
    from b obtain c pre post where
      c: "map_of (files w0) (ymAsarPath p) = Some c" "map_of (files w) (backupPath p) = Some c"
      and e1: "events w = events w0 @ pre @ CopyFile (ymAsarPath p) (backupPath p) # applying # post"
      and q: "\<forall>e\<in>set pre. e \<noteq> applying \<and> \<not> writes e (ymAsarPath p)"
      unfolding after_backup_def by blast
    have "map_of (files w0) (ymAsarPath p) = Some c \<and>
        map_of (files w') (backupPath p) = Some c \<and>
        events w' = events w0 @ pre @ CopyFile (ymAsarPath p) (backupPath p) # applying # (post @ ev2) \<and>
        (\<forall>e\<in>set pre. e \<noteq> applying \<and> \<not> writes e (ymAsarPath p))"
      using e1 e2 c f2 q by simp
    then show ?thesis unfolding after_backup_def by (intro exI)
  qed
  show ?thesis unfolding triple_def
  proof (intro allI impI)
    fix w r w' assume "after_backup p w0 w" "m w = Some (r, w')"
    then have "after_backup p w0 w'" by (rule step)
    then show "case r of Inl e \<Rightarrow> run_state p w0 w' | Inr v \<Rightarrow> after_backup p w0 w'"
      by (cases r) (simp_all add: run_state_def)
  qed
qed

lemma seq_before:
  "spares (ymAsarPath p) m \<Longrightarrow> triple (before_backup p w0) n R (run_state p w0) \<Longrightarrow>
   triple (before_backup p w0) (io_seq m n) R (run_state p w0)"
  by (rule triple_seq[OF spares_before])

lemma bind_before:
  "spares (ymAsarPath p) m \<Longrightarrow> (\<And>v. triple (before_backup p w0) (f v) R (run_state p w0)) \<Longrightarrow>
   triple (before_backup p w0) (io_bind m f) R (run_state p w0)"
  by (rule triple_bind[OF spares_before])

lemma seq_after:
  "spares (backupPath p) m \<Longrightarrow> triple (after_backup p w0) n R (run_state p w0) \<Longrightarrow>
   triple (after_backup p w0) (io_seq m n) R (run_state p w0)"
  by (rule triple_seq[OF spares_after])

lemma last_after:
  "spares (backupPath p) m \<Longrightarrow>
   triple (after_backup p w0) m (\<lambda>_. run_state p w0) (run_state p w0)"
  by (rule triple_weaken[OF spares_after]) (simp_all add: run_state_def)

lemma triple_createBackup:
  assumes "paths_ok p"
  shows "triple (before_backup p w0) (createBackup p) (\<lambda>_. backup_made p w0) (run_state p w0)"
proof -
  note ne = asar_neq_backup[OF assms]
  have ok: "backup_made p w0 w'"
    if b: "before_backup p w0 w" and run: "createBackup p w = Some (Inr (), w')" for w w'
  proof -
    from b obtain ev1 where
      e1: "events w = events w0 @ ev1" "\<forall>e\<in>set ev1. e \<noteq> applying \<and> \<not> writes e (ymAsarPath p)"
      and f1: "map_of (files w) (ymAsarPath p) = map_of (files w0) (ymAsarPath p)"
      unfolding before_backup_def by blast
    from run obtain c where c: "map_of (files w) (ymAsarPath p) = Some c"
      and w': "w' = w\<lparr>files := AList.update (backupPath p) c (files w),
                     events := events w @ [CopyFile (ymAsarPath p) (backupPath p)]\<rparr>"
      by (auto simp: createBackup_def copyFile_def backupPath_def split: option.splits)
    have "map_of (files w0) (ymAsarPath p) = Some c" using c f1 by simp
    moreover have "map_of (files w') (ymAsarPath p) = Some c"
      using w' c ne by (simp add: update_conv')
    moreover have "map_of (files w') (backupPath p) = Some c"
      using w' by (simp add: update_conv')
    moreover have "events w' = events w0 @ ev1 @ [CopyFile (ymAsarPath p) (backupPath p)]"
      using w' e1 by simp
    ultimately have "map_of (files w0) (ymAsarPath p) = Some c \<and>
        map_of (files w') (ymAsarPath p) = Some c \<and>
        map_of (files w') (backupPath p) = Some c \<and>
        events w' = events w0 @ ev1 @ [CopyFile (ymAsarPath p) (backupPath p)] \<and>
        (\<forall>e\<in>set ev1. e \<noteq> applying \<and> \<not> writes e (ymAsarPath p))"
      using e1(2) by simp
    then show ?thesis unfolding backup_made_def by (intro exI)
  qed
  have bad: "run_state p w0 w'"
    if b: "before_backup p w0 w" and run: "createBackup p w = Some (Inl e, w')" for w w' e
  proof -
    from run have "w' = w"
      by (auto simp: createBackup_def copyFile_def split: option.splits)
    then show ?thesis using b by (simp add: run_state_def)
  qed
  show ?thesis unfolding triple_def
  proof (intro allI impI)
    fix w r w' assume h: "before_backup p w0 w" "createBackup p w = Some (r, w')"
    show "case r of Inl e \<Rightarrow> run_state p w0 w' | Inr v \<Rightarrow> backup_made p w0 w'"
    proof (cases r)
      case (Inl e)
      then show ?thesis using bad h by simp
    next
      case (Inr v)
      then show ?thesis using ok h by simp
    qed
  qed
qed

lemma triple_applying:
  "triple (backup_made p w0) (updateStatus (lit ''Applying patch...''))
     (\<lambda>_. after_backup p w0) (run_state p w0)"
proof -
  have "after_backup p w0 (w\<lparr>events := events w @ [applying]\<rparr>)" if b: "backup_made p w0 w" for w
  proof -
    from b obtain c pre where
      c: "map_of (files w0) (ymAsarPath p) = Some c" "map_of (files w) (backupPath p) = Some c"
      and e: "events w = events w0 @ pre @ [CopyFile (ymAsarPath p) (backupPath p)]"
      and q: "\<forall>e\<in>set pre. e \<noteq> applying \<and> \<not> writes e (ymAsarPath p)"
      unfolding backup_made_def by blast
    have "map_of (files w0) (ymAsarPath p) = Some c \<and>
        map_of (files (w\<lparr>events := events w @ [applying]\<rparr>)) (backupPath p) = Some c \<and>
        events (w\<lparr>events := events w @ [applying]\<rparr>) =
            events w0 @ pre @ CopyFile (ymAsarPath p) (backupPath p) # applying # [] \<and>
        (\<forall>e\<in>set pre. e \<noteq> applying \<and> \<not> writes e (ymAsarPath p))"
      using e c q by simp
    then show ?thesis unfolding after_backup_def by (intro exI)
  qed
  then show ?thesis
    by (auto simp: triple_def updateStatus_def emit_def applying_def)
qed

lemma patch_phases:
  assumes ok: "paths_ok p"
  shows "triple (before_backup p w0) (patch p en spinner) (\<lambda>_. run_state p w0) (run_state p w0)"
  unfolding patch_def Let_def
  apply (rule bind_before)
  subgoal by (rule spares_intros)
  apply (rule triple_if)
  subgoal by (rule triple_throw) (simp add: run_state_def)
  apply (rule seq_before)
  subgoal by (rule spares_updateStatus) (simp add: lit_def)
  apply (rule seq_before)
  subgoal by (intro spares_intros spares_updateStatus) (simp add: lit_def)
  apply (rule bind_before)
  subgoal by (intro spares_intros spares_updateStatus) (simp add: lit_def)
  apply (rule seq_before)
  subgoal by (rule spares_updateStatus) (simp add: lit_def)
  apply (rule bind_before)
  subgoal by (rule spares_intros)
  apply (rule seq_before)
  subgoal by (rule spares_updateStatus) (simp add: lit_def)
  apply (rule seq_before)
  subgoal by (rule spares_downloadModFiles[OF ok])
  apply (rule seq_before)
  subgoal by (rule spares_updateStatus) (simp add: lit_def)
  apply (rule triple_seq[OF triple_createBackup[OF ok]])
  apply (rule triple_seq[OF triple_applying])
  apply (rule seq_after)
  subgoal by (rule spares_replaceAsar[OF ok])
  apply (rule seq_after)
  subgoal by (intro spares_intros spares_updateStatus spares_bypassIntegrityWin[OF ok]) (simp add: lit_def)
  apply (rule seq_after)
  subgoal by (intro spares_intros spares_clearCaches)
  apply (rule last_after)
  apply (intro spares_intros spares_updateStatus)
  apply (simp add: lit_def)
  done

text \<open>
  C3. For a patcher as the constructor builds it and every run of \<open>patch\<close> that ends
  (normally or with an error): if the run reached the replacement (its status line
  \<open>Applying patch...\<close> is in the journal), then the archive existed before the run, the
  copy of the archive to \<open>app.asar.backup\<close> in the temp directory stands in the journal
  right before that status line, nothing before it wrote the archive, and at the end
  of the run the backup still holds the archive's content from before the run. If the
  run did not reach the replacement, the archive is as it was and was never written.
\<close>

theorem backup_before_replace:
  assumes new: "Patcher_new plat homeDir localAppData configCustomPath raw = Inr p"
    and run: "patch p en spinner w = Some (res, w')"
  shows "\<exists>new. events w' = events w @ new \<and>
           (if Status (lit ''Applying patch...'') \<in> set new then
              (\<exists>c pre post.
                  map_of (files w) (ymAsarPath p) = Some c \<and>
                  map_of (files w') (path_join [tmpDir p, lit ''app.asar.backup'']) = Some c \<and>
                  new = pre @ CopyFile (ymAsarPath p) (path_join [tmpDir p, lit ''app.asar.backup''])
                          # Status (lit ''Applying patch...'') # post \<and>
                  (\<forall>e\<in>set pre. \<not> writes e (ymAsarPath p)))
            else map_of (files w') (ymAsarPath p) = map_of (files w) (ymAsarPath p) \<and>
                 (\<forall>e\<in>set new. \<not> writes e (ymAsarPath p)))"
proof -
  note ok = Patcher_new_paths_ok[OF new]
  have start: "before_backup p w w" by (simp add: before_backup_def)
  from patch_phases[OF ok, of w en spinner] start run
  have fin: "run_state p w w'"
    unfolding triple_def by (cases res) fastforce+
  note ne = asar_neq_backup[OF ok]
  from fin consider "before_backup p w w'" | "backup_made p w w'" | "after_backup p w w'"
    unfolding run_state_def by blast
  then show ?thesis
  proof cases
    case 1
    then obtain ev where "events w' = events w @ ev"
      "\<forall>e\<in>set ev. e \<noteq> applying \<and> \<not> writes e (ymAsarPath p)"
      "map_of (files w') (ymAsarPath p) = map_of (files w) (ymAsarPath p)"
      unfolding before_backup_def by blast
    then show ?thesis
      by (intro exI[of _ ev]) (auto simp: applying_def)
  next
    case 2
    then obtain c pre where c: "map_of (files w) (ymAsarPath p) = Some c"
      "map_of (files w') (ymAsarPath p) = Some c"
      and e: "events w' = events w @ pre @ [CopyFile (ymAsarPath p) (backupPath p)]"
      and q: "\<forall>e\<in>set pre. e \<noteq> applying \<and> \<not> writes e (ymAsarPath p)"
      unfolding backup_made_def by blast
    show ?thesis
      using c e q ne
      by (intro exI[of _ "pre @ [CopyFile (ymAsarPath p) (backupPath p)]"])
         (auto simp: applying_def)
  next
    case 3
    then obtain c pre post where c: "map_of (files w) (ymAsarPath p) = Some c"
      "map_of (files w') (backupPath p) = Some c"
      and e: "events w' = events w @ pre @ CopyFile (ymAsarPath p) (backupPath p) # applying # post"
      and q: "\<forall>e\<in>set pre. e \<noteq> applying \<and> \<not> writes e (ymAsarPath p)"
      unfolding after_backup_def by blast
    have "\<exists>c pre' post'.
                  map_of (files w) (ymAsarPath p) = Some c \<and>
                  map_of (files w') (path_join [tmpDir p, lit ''app.asar.backup'']) = Some c \<and>
                  pre @ CopyFile (ymAsarPath p) (backupPath p) # applying # post
                    = pre' @ CopyFile (ymAsarPath p) (path_join [tmpDir p, lit ''app.asar.backup''])
                          # Status (lit ''Applying patch...'') # post' \<and>
                  (\<forall>e\<in>set pre'. \<not> writes e (ymAsarPath p))"
      using c q by (intro exI[of _ c] exI[of _ pre] exI[of _ post]) (simp add: backupPath_def applying_def)
    then show ?thesis
      using e
      by (intro exI[of _ "pre @ CopyFile (ymAsarPath p) (backupPath p) # applying # post"])
         (simp add: applying_def)
  qed
qed

lemma demo_clearing_constructed:
  "Patcher_new Win32 (lit ''/h'') (Some (lit ''/l'')) None
     \<lparr> raw_patchType = None, raw_customPath = None, raw_useCache = None,
       raw_keepCache = Some False, raw_githubToken = None, raw_force = None \<rparr>
   = Inr demo_clearing_patcher"
  by (simp add: Patcher_new_def demo_patcher_def demo_options_def demo_clearing_patcher_def
      demo_exe_def or_string_def getDefaultYMPath_def resolveAsarPath_def resolveExePath_def
      path_join_def lit_def slash_def ym_name_def Let_def)

theorem backup_before_replace_witness:
  "Patcher_new Win32 (lit ''/h'') (Some (lit ''/l'')) None
     \<lparr> raw_patchType = None, raw_customPath = None, raw_useCache = None,
       raw_keepCache = Some False, raw_githubToken = None, raw_force = None \<rparr>
     = Inr demo_clearing_patcher \<and>
   (\<exists>w'. patch demo_clearing_patcher demo_env False demo_world = Some (Inr (), w') \<and>
      (Status (lit ''Applying patch...'') \<in> set (events w'),
       map_of (files w') (demo_tmp ''app.asar.backup''),
       map_of (files w') (ymAsarPath demo_clearing_patcher),
       map_of (files w') demo_exe,
       map_of (files w') (demo_tmp ''app.asar''))
      = (True, Some [0x61, 0x62], Some [0x78, 0x79], Some [0x78, 0x79, 0x30, 0x78, 0x79], None)) \<and>
   (\<exists>w'. patch demo_devtools_patcher demo_devtools_env False demo_world
            = Some (Inl (FsError (demo_tmp ''app.asar'')), w') \<and>
      (Status (lit ''Applying patch...'') \<in> set (events w'),
       map_of (files w') (demo_tmp ''app.asar.backup''),
       map_of (files w') (ymAsarPath demo_devtools_patcher))
      = (True, Some [0x61, 0x62], Some [0x61, 0x62]))"
proof -
  have "observe (\<lambda>w'. (Status (lit ''Applying patch...'') \<in> set (events w'),
       map_of (files w') (demo_tmp ''app.asar.backup''),
       map_of (files w') (ymAsarPath demo_clearing_patcher),
       map_of (files w') demo_exe,
       map_of (files w') (demo_tmp ''app.asar'')))
     (patch demo_clearing_patcher demo_env False) demo_world
    = Some (Inr (), True, Some [0x61, 0x62], Some [0x78, 0x79], Some [0x78, 0x79, 0x30, 0x78, 0x79], None)"
    by code_simp
  from run_result[OF this] obtain w1 where
    r1: "patch demo_clearing_patcher demo_env False demo_world = Some (Inr (), w1)"
    and o1: "(Status (lit ''Applying patch...'') \<in> set (events w1),
       map_of (files w1) (demo_tmp ''app.asar.backup''),
       map_of (files w1) (ymAsarPath demo_clearing_patcher),
       map_of (files w1) demo_exe,
       map_of (files w1) (demo_tmp ''app.asar''))
      = (True, Some [0x61, 0x62], Some [0x78, 0x79], Some [0x78, 0x79, 0x30, 0x78, 0x79], None)"
    by blast
  have "observe (\<lambda>w'. (Status (lit ''Applying patch...'') \<in> set (events w'),
       map_of (files w') (demo_tmp ''app.asar.backup''),
       map_of (files w') (ymAsarPath demo_devtools_patcher)))
     (patch demo_devtools_patcher demo_devtools_env False) demo_world
    = Some (Inl (FsError (demo_tmp ''app.asar'')), True, Some [0x61, 0x62], Some [0x61, 0x62])"
    by code_simp
  from run_result[OF this] obtain w2 where
    r2: "patch demo_devtools_patcher demo_devtools_env False demo_world
            = Some (Inl (FsError (demo_tmp ''app.asar'')), w2)"
    and o2: "(Status (lit ''Applying patch...'') \<in> set (events w2),
       map_of (files w2) (demo_tmp ''app.asar.backup''),
       map_of (files w2) (ymAsarPath demo_devtools_patcher))
      = (True, Some [0x61, 0x62], Some [0x61, 0x62])"
    by blast
  show ?thesis
    using backup_before_replace[OF demo_clearing_constructed r1] demo_clearing_constructed
      r1 o1 r2 o2
    by blast
qed

end
